theory Spec2Isabelle
  imports Main
begin

section \<open>Syntax nodes and the control-flow graph\<close>

text \<open>
  The analyses of \<^verbatim>\<open>src/analysis/function_analysis.cpp\<close> consume syntax nodes and a
  control-flow graph that are declared in \<^verbatim>\<open>core/ast.h\<close> and \<^verbatim>\<open>core/cfg.h\<close>. Only the
  node kinds and fields that the analyses name are represented. A name reference carries
  its context tag; every tag other than \<open>Load\<close> and \<open>Store\<close> is represented by \<open>Param\<close>.
  An expression kind the analyses do not name is \<open>OtherExpr\<close> with its sub-expressions.
\<close>

datatype ctx_type = Load | Store | Param

datatype AST_expr =
    Name string ctx_type
  | Attribute AST_expr string
  | Subscript AST_expr AST_expr
  | Tuple "AST_expr list"
  | OtherExpr "AST_expr list"

datatype AST_alias = Alias (alias_name: string) (alias_asname: string)

datatype AST_stmt =
    Assign "AST_expr list" AST_expr
  | Branch AST_expr
  | ClassDef string "AST_stmt list"
  | Expr AST_expr
  | FunctionDef string "AST_stmt list"
  | Global "string list"
  | Import "AST_alias list"
  | Jump
  | Pass
  | Print "AST_expr list"
  | Return "AST_expr option"

record AST_arguments =
  args :: "AST_expr list"
  kwarg :: "AST_expr option"
  vararg :: string

text \<open>
  A \<^verbatim>\<open>CFGBlock*\<close> is the position of the block in \<^verbatim>\<open>cfg->blocks\<close>; predecessor and
  successor lists hold such positions. Every way in which the source terminates the
  process has its own value: \<open>Abort\<close> for the \<^verbatim>\<open>assert(0); abort()\<close> of \<^verbatim>\<open>visit_name\<close>,
  \<open>AssertUndefinedArg\<close> for the assertions of \<^verbatim>\<open>merge\<close> and \<^verbatim>\<open>mergeBlank\<close>,
  \<open>AssertUnknownType\<close> for the default case of \<^verbatim>\<open>_doSet\<close>, \<open>AssertNoPredecessor\<close> for
  the assertion of the \<^verbatim>\<open>PhiAnalysis\<close> constructor, and \<open>AssertNoSuccessor\<close> and
  \<open>AssertUndefinedLevel\<close> for the two assertions of \<^verbatim>\<open>isPotentiallyUndefinedAfter\<close>.
  Following a position outside the graph has no defined behaviour in the source; the
  model ends the computation with \<open>Abort\<close> there.
\<close>

record CFGBlock =
  idx :: nat
  body :: "AST_stmt list"
  predecessors :: "nat list"
  successors :: "nat list"

record CFG =
  blocks :: "CFGBlock list"

datatype fatal =
    Abort
  | AssertUndefinedArg
  | AssertUnknownType
  | AssertNoPredecessor
  | AssertNoSuccessor
  | AssertUndefinedLevel

definition deref :: "CFG \<Rightarrow> nat \<Rightarrow> CFGBlock option" where
  "deref cfg p = (if p < length (blocks cfg) then Some (blocks cfg ! p) else None)"

section \<open>LivenessBBVisitor\<close>

record LivenessBBVisitor =
  loads :: "string set"
  stores :: "string set"

definition doLoad :: "string \<Rightarrow> LivenessBBVisitor \<Rightarrow> LivenessBBVisitor" where
  "doLoad n v = (if n \<in> stores v then v else v\<lparr>loads := insert n (loads v)\<rparr>)"

definition doStore :: "string \<Rightarrow> LivenessBBVisitor \<Rightarrow> LivenessBBVisitor" where
  "doStore n v = (if n \<in> loads v then v else v\<lparr>stores := insert n (stores v)\<rparr>)"

fun visit_name :: "string \<Rightarrow> ctx_type \<Rightarrow> LivenessBBVisitor \<Rightarrow> fatal + LivenessBBVisitor" where
  "visit_name n Load v = Inr (doLoad n v)"
| "visit_name n Store v = Inr (doStore n v)"
| "visit_name n Param v = Inl Abort"

text \<open>
  Modelled from the spec: the \<^verbatim>\<open>accept\<close> methods of the syntax nodes (\<^verbatim>\<open>core/ast.cpp\<close>)
  and the hooks of \<^verbatim>\<open>NoopASTVisitor\<close> are not part of the analysed file. A node first
  offers itself to the visitor's hook; \<^verbatim>\<open>LivenessBBVisitor\<close> overrides the hooks of class
  definitions, function definitions and name references, which all return \<^verbatim>\<open>true\<close> (no
  descent). For every other node the inherited hook does nothing and the sub-expressions
  are visited structurally; the value of an assignment is visited before its targets.
  Aliases of an import hold identifiers, not name references.
\<close>

fun accept_expr :: "AST_expr \<Rightarrow> LivenessBBVisitor \<Rightarrow> fatal + LivenessBBVisitor"
  and accept_exprs :: "AST_expr list \<Rightarrow> LivenessBBVisitor \<Rightarrow> fatal + LivenessBBVisitor" where
  "accept_expr (Name n c) v = visit_name n c v"
| "accept_expr (Attribute e a) v = accept_expr e v"
| "accept_expr (Subscript e s) v =
     (case accept_expr e v of Inl x \<Rightarrow> Inl x | Inr v' \<Rightarrow> accept_expr s v')"
| "accept_expr (Tuple es) v = accept_exprs es v"
| "accept_expr (OtherExpr es) v = accept_exprs es v"
| "accept_exprs [] v = Inr v"
| "accept_exprs (e # es) v =
     (case accept_expr e v of Inl x \<Rightarrow> Inl x | Inr v' \<Rightarrow> accept_exprs es v')"

text \<open>
  Modelled from the spec: \<^verbatim>\<open>accept\<close> of a statement, for \<^verbatim>\<open>LivenessBBVisitor\<close>. The hooks
  \<^verbatim>\<open>visit_classdef\<close> and \<^verbatim>\<open>visit_functiondef\<close> of the source record the store and stop the
  descent.
\<close>

fun accept_stmt :: "AST_stmt \<Rightarrow> LivenessBBVisitor \<Rightarrow> fatal + LivenessBBVisitor" where
  "accept_stmt (Assign targets val) v =
     (case accept_expr val v of Inl x \<Rightarrow> Inl x | Inr v' \<Rightarrow> accept_exprs targets v')"
| "accept_stmt (Branch test) v = accept_expr test v"
| "accept_stmt (ClassDef n b) v = Inr (doStore n v)"
| "accept_stmt (Expr e) v = accept_expr e v"
| "accept_stmt (FunctionDef n b) v = Inr (doStore n v)"
| "accept_stmt (Global ns) v = Inr v"
| "accept_stmt (Import als) v = Inr v"
| "accept_stmt Jump v = Inr v"
| "accept_stmt Pass v = Inr v"
| "accept_stmt (Print es) v = accept_exprs es v"
| "accept_stmt (Return None) v = Inr v"
| "accept_stmt (Return (Some e)) v = accept_expr e v"

text \<open>The loop over \<^verbatim>\<open>thisblock->body\<close> in \<^verbatim>\<open>isLiveAtEnd\<close>.\<close>

fun accept_body :: "AST_stmt list \<Rightarrow> LivenessBBVisitor \<Rightarrow> fatal + LivenessBBVisitor" where
  "accept_body [] v = Inr v"
| "accept_body (s # ss) v =
     (case accept_stmt s v of Inl x \<Rightarrow> Inl x | Inr v' \<Rightarrow> accept_body ss v')"

text \<open>A fresh visitor is constructed for every block that the traversal takes up.\<close>

definition new_visitor :: LivenessBBVisitor where
  "new_visitor = \<lparr>loads = {}, stores = {}\<rparr>"

definition classify :: "CFGBlock \<Rightarrow> fatal + LivenessBBVisitor" where
  "classify b = accept_body (body b) new_visitor"

section \<open>LivenessAnalysis::isLiveAtEnd\<close>

text \<open>
  The \<^verbatim>\<open>while (q.size())\<close> loop: \<open>visited\<close> is the set of blocks taken up so far and the
  list is the deque, front first.
\<close>

function liveness_loop :: "CFG \<Rightarrow> string \<Rightarrow> nat set \<Rightarrow> nat list \<Rightarrow> fatal + bool" where
  "liveness_loop cfg n visited [] = Inr False"
| "liveness_loop cfg n visited (thisblock # q) =
     (if thisblock \<in> visited then liveness_loop cfg n visited q
      else case deref cfg thisblock of
        None \<Rightarrow> Inl Abort
      | Some b \<Rightarrow>
          (case classify b of
             Inl x \<Rightarrow> Inl x
           | Inr visitor \<Rightarrow>
               if n \<in> loads visitor then Inr True
               else if n \<notin> stores visitor
                 then liveness_loop cfg n (insert thisblock visited) (q @ successors b)
                 else liveness_loop cfg n (insert thisblock visited) q))"
  by pat_completeness auto

termination
proof (relation "measures [\<lambda>(cfg, n, visited, q). card ({..<length (blocks cfg)} - visited),
                           \<lambda>(cfg, n, visited, q). length q]", goal_cases)
  case 1
  show ?case by simp
next
  case (2 cfg n visited thisblock q)
  then show ?case by simp
next
  case (3 cfg n visited thisblock q b visitor)
  then have "thisblock < length (blocks cfg)"
    by (simp add: deref_def split: if_splits)
  with 3 have "card ({..<length (blocks cfg)} - insert thisblock visited)
      < card ({..<length (blocks cfg)} - visited)"
    by (intro psubset_card_mono) auto
  then show ?case by simp
next
  case (4 cfg n visited thisblock q b visitor)
  then have "thisblock < length (blocks cfg)"
    by (simp add: deref_def split: if_splits)
  with 4 have "card ({..<length (blocks cfg)} - insert thisblock visited)
      < card ({..<length (blocks cfg)} - visited)"
    by (intro psubset_card_mono) auto
  then show ?case by simp
qed

definition isLiveAtEnd :: "CFG \<Rightarrow> string \<Rightarrow> nat \<Rightarrow> fatal + bool" where
  "isLiveAtEnd cfg n block =
     (case deref cfg block of
        None \<Rightarrow> Inl Abort
      | Some b \<Rightarrow>
          if length (successors b) = 0 then Inr False
          else liveness_loop cfg n {} (successors b))"

section \<open>DefinednessBBAnalyzer and DefinednessVisitor\<close>

datatype DefinitionLevel = Undefined | PotentiallyDefined | Defined

text \<open>\<^verbatim>\<open>BBAnalyzer<T>::Map\<close>, an \<^verbatim>\<open>unordered_map\<close> from names to lattice values.\<close>

type_synonym Map = "string \<rightharpoonup> DefinitionLevel"

definition merge :: "DefinitionLevel \<Rightarrow> DefinitionLevel \<Rightarrow> fatal + DefinitionLevel" where
  "merge from into =
     (if from = Undefined then Inl AssertUndefinedArg
      else if into = Undefined then Inl AssertUndefinedArg
      else if from = PotentiallyDefined \<or> into = PotentiallyDefined then Inr PotentiallyDefined
      else Inr Defined)"

definition mergeBlank :: "DefinitionLevel \<Rightarrow> fatal + DefinitionLevel" where
  "mergeBlank into =
     (if into = Undefined then Inl AssertUndefinedArg else Inr PotentiallyDefined)"

text \<open>\<^verbatim>\<open>_doSet(const std::string&)\<close> and \<^verbatim>\<open>_doSet(AST*)\<close>.\<close>

definition doSet_name :: "string \<Rightarrow> Map \<Rightarrow> Map" where
  "doSet_name s state = state(s \<mapsto> Defined)"

fun doSet :: "AST_expr \<Rightarrow> Map \<Rightarrow> fatal + Map"
  and doSet_elts :: "AST_expr list \<Rightarrow> Map \<Rightarrow> fatal + Map" where
  "doSet (Attribute e a) state = Inr state"
| "doSet (Name n c) state = Inr (doSet_name n state)"
| "doSet (Subscript e s) state = Inr state"
| "doSet (Tuple elts) state = doSet_elts elts state"
| "doSet (OtherExpr es) state = Inl AssertUnknownType"
| "doSet_elts [] state = Inr state"
| "doSet_elts (t # ts) state =
     (case doSet t state of Inl x \<Rightarrow> Inl x | Inr state' \<Rightarrow> doSet_elts ts state')"

text \<open>
  \<^verbatim>\<open>visit_import\<close> binds \<^verbatim>\<open>name\<close> as a reference to \<^verbatim>\<open>alias->name\<close>, so the assignment
  \<^verbatim>\<open>name = alias->asname\<close> writes into the alias node. The function returns the aliases as
  the visit leaves them together with the new state.
\<close>

fun visit_import :: "AST_alias list \<Rightarrow> Map \<Rightarrow> AST_alias list \<times> Map" where
  "visit_import [] state = ([], state)"
| "visit_import (a # rest) state =
     (let a' = (if length (alias_asname a) \<noteq> 0
                then Alias (alias_asname a) (alias_asname a) else a);
          r = visit_import rest (doSet_name (alias_name a') state)
      in (a' # fst r, snd r))"

text \<open>
  Every statement hook of \<^verbatim>\<open>DefinednessVisitor\<close> returns \<^verbatim>\<open>true\<close>, so no statement is
  descended into. The result holds the statement as the visit leaves it.
\<close>

fun definedness_visit :: "AST_stmt \<Rightarrow> Map \<Rightarrow> fatal + (AST_stmt \<times> Map)" where
  "definedness_visit (Branch t) state = Inr (Branch t, state)"
| "definedness_visit (Expr e) state = Inr (Expr e, state)"
| "definedness_visit (Global ns) state = Inr (Global ns, state)"
| "definedness_visit Jump state = Inr (Jump, state)"
| "definedness_visit Pass state = Inr (Pass, state)"
| "definedness_visit (Print es) state = Inr (Print es, state)"
| "definedness_visit (Return r) state = Inr (Return r, state)"
| "definedness_visit (ClassDef n b) state = Inr (ClassDef n b, doSet_name n state)"
| "definedness_visit (FunctionDef n b) state = Inr (FunctionDef n b, doSet_name n state)"
| "definedness_visit (Import als) state =
     (let r = visit_import als state in Inr (Import (fst r), snd r))"
| "definedness_visit (Assign targets val) state =
     (case doSet_elts targets state of
        Inl x \<Rightarrow> Inl x
      | Inr state' \<Rightarrow> Inr (Assign targets val, state'))"

fun definedness_visit_body :: "AST_stmt list \<Rightarrow> Map \<Rightarrow> fatal + (AST_stmt list \<times> Map)" where
  "definedness_visit_body [] state = Inr ([], state)"
| "definedness_visit_body (s # ss) state =
     (case definedness_visit s state of
        Inl x \<Rightarrow> Inl x
      | Inr (s', state') \<Rightarrow>
          (case definedness_visit_body ss state' of
             Inl x \<Rightarrow> Inl x
           | Inr (ss', state'') \<Rightarrow> Inr (s' # ss', state'')))"

definition visit_arguments :: "AST_arguments \<Rightarrow> Map \<Rightarrow> fatal + Map" where
  "visit_arguments node state =
     (case (case kwarg node of None \<Rightarrow> Inr state | Some k \<Rightarrow> doSet k state) of
        Inl x \<Rightarrow> Inl x
      | Inr state1 \<Rightarrow>
          doSet_elts (args node)
            (if length (vararg node) \<noteq> 0 then doSet_name (vararg node) state1 else state1))"

text \<open>
  \<^verbatim>\<open>processBB\<close> updates the map \<^verbatim>\<open>starting\<close> in place; the result holds the block as the
  visit leaves it and the updated map.
\<close>

definition processBB :: "AST_arguments option \<Rightarrow> Map \<Rightarrow> CFGBlock \<Rightarrow> fatal + (CFGBlock \<times> Map)" where
  "processBB arguments starting block =
     (case definedness_visit_body (body block) starting of
        Inl x \<Rightarrow> Inl x
      | Inr (body', state) \<Rightarrow>
          (case (if idx block = 0 \<and> arguments \<noteq> None
                 then visit_arguments (the arguments) state else Inr state) of
             Inl x \<Rightarrow> Inl x
           | Inr state' \<Rightarrow> Inr (block\<lparr>body := body'\<rparr>, state')))"

section \<open>DefinednessAnalysis\<close>

text \<open>
  \<^verbatim>\<open>operator[]\<close> of \<^verbatim>\<open>std::unordered_map\<close> inserts a value-initialised entry when the key
  is absent and returns the entry; \<^verbatim>\<open>insert\<close> leaves an existing entry alone.
\<close>

definition subscript :: "('k \<rightharpoonup> 'v) \<Rightarrow> 'k \<Rightarrow> 'v \<Rightarrow> 'v \<times> ('k \<rightharpoonup> 'v)" where
  "subscript m k dflt = (case m k of None \<Rightarrow> (dflt, m(k \<mapsto> dflt)) | Some v \<Rightarrow> (v, m))"

definition insert_pair :: "('k \<rightharpoonup> 'v) \<Rightarrow> 'k \<Rightarrow> 'v \<Rightarrow> ('k \<rightharpoonup> 'v)" where
  "insert_pair m k v = (case m k of None \<Rightarrow> m(k \<mapsto> v) | Some w \<Rightarrow> m)"

text \<open>The scope resolver (\<^verbatim>\<open>analysis/scoping_analysis.h\<close>) is its one predicate.\<close>

record ScopeInfo =
  refersToGlobal :: "string \<Rightarrow> bool"

record DefinednessAnalysis =
  results :: "nat \<rightharpoonup> Map"
  defined :: "nat \<rightharpoonup> string set"
  scope_info :: ScopeInfo

text \<open>
  The constructor. The engine \<^verbatim>\<open>computeFixedPoint\<close> is declared in \<^verbatim>\<open>analysis/fpc.h\<close>, which
  is not part of the analysed file; its result, the table from blocks to maps, is the
  parameter \<open>fixed_point\<close>.
\<close>

definition new_DefinednessAnalysis :: "(nat \<rightharpoonup> Map) \<Rightarrow> ScopeInfo \<Rightarrow> DefinednessAnalysis" where
  "new_DefinednessAnalysis fixed_point scope =
     \<lparr>results = fixed_point,
      defined = (\<lambda>block. case fixed_point block of
                   None \<Rightarrow> None
                 | Some m \<Rightarrow> Some {n \<in> dom m. \<not> refersToGlobal scope n}),
      scope_info = scope\<rparr>"

definition isDefinedAt ::
    "string \<Rightarrow> nat \<Rightarrow> DefinednessAnalysis \<Rightarrow> DefinitionLevel \<times> DefinednessAnalysis" where
  "isDefinedAt n block da =
     (let r = subscript (results da) block Map.empty;
          da' = da\<lparr>results := snd r\<rparr>
      in case fst r n of None \<Rightarrow> (Undefined, da') | Some level \<Rightarrow> (level, da'))"

definition getDefinedNamesAt ::
    "nat \<Rightarrow> DefinednessAnalysis \<Rightarrow> string set \<times> DefinednessAnalysis" where
  "getDefinedNamesAt block da =
     (let r = subscript (defined da) block {} in (fst r, da\<lparr>defined := snd r\<rparr>))"

section \<open>PhiAnalysis\<close>

text \<open>
  The liveness object has no fields; its query reads the graph through the block
  pointers, so the queries below take the graph as an argument.
\<close>

record PhiAnalysis =
  definedness :: DefinednessAnalysis
  required_phis :: "nat \<rightharpoonup> string set"

text \<open>
  The inner loop of the constructor runs over an unordered set and stops the process at
  the first liveness query that fails; every failure of \<open>isLiveAtEnd\<close> is \<open>Abort\<close>.
\<close>

definition live_names :: "CFG \<Rightarrow> string set \<Rightarrow> nat \<Rightarrow> fatal + string set" where
  "live_names cfg names pred0 =
     (if \<exists>n\<in>names. isl (isLiveAtEnd cfg n pred0) then Inl Abort
      else Inr {n \<in> names. isLiveAtEnd cfg n pred0 = Inr True})"

fun phi_loop :: "CFG \<Rightarrow> (nat \<times> CFGBlock) list \<Rightarrow> PhiAnalysis \<Rightarrow> fatal + PhiAnalysis" where
  "phi_loop cfg [] phi = Inr phi"
| "phi_loop cfg ((i, block) # rest) phi =
     (if length (predecessors block) < 2 then phi_loop cfg rest phi
      else
        let r = getDefinedNamesAt i (definedness phi) in
        if fst r \<noteq> {} \<and> length (predecessors block) = 0 then Inl AssertNoPredecessor
        else case live_names cfg (fst r) (predecessors block ! 0) of
          Inl x \<Rightarrow> Inl x
        | Inr required \<Rightarrow>
            phi_loop cfg rest
              \<lparr>definedness = snd r,
               required_phis = insert_pair (required_phis phi) i required\<rparr>)"

definition new_PhiAnalysis :: "(nat \<rightharpoonup> Map) \<Rightarrow> CFG \<Rightarrow> ScopeInfo \<Rightarrow> fatal + PhiAnalysis" where
  "new_PhiAnalysis fixed_point cfg scope =
     phi_loop cfg (enumerate 0 (blocks cfg))
       \<lparr>definedness = new_DefinednessAnalysis fixed_point scope, required_phis = Map.empty\<rparr>"

definition getAllRequiredAfter ::
    "CFG \<Rightarrow> nat \<Rightarrow> PhiAnalysis \<Rightarrow> fatal + (string set \<times> PhiAnalysis)" where
  "getAllRequiredAfter cfg block phi =
     (case deref cfg block of
        None \<Rightarrow> Inl Abort
      | Some b \<Rightarrow>
          if length (successors b) = 0 then Inr ({}, phi)
          else let r = subscript (required_phis phi) (successors b ! 0) {}
               in Inr (fst r, phi\<lparr>required_phis := snd r\<rparr>))"

definition getAllDefinedAt :: "nat \<Rightarrow> PhiAnalysis \<Rightarrow> string set \<times> PhiAnalysis" where
  "getAllDefinedAt block phi =
     (let r = getDefinedNamesAt block (definedness phi) in (fst r, phi\<lparr>definedness := snd r\<rparr>))"

definition isRequired :: "string \<Rightarrow> nat \<Rightarrow> PhiAnalysis \<Rightarrow> bool \<times> PhiAnalysis" where
  "isRequired n block phi =
     (let r = subscript (required_phis phi) block {}
      in (n \<in> fst r, phi\<lparr>required_phis := snd r\<rparr>))"

definition isRequiredAfter ::
    "CFG \<Rightarrow> string \<Rightarrow> nat \<Rightarrow> PhiAnalysis \<Rightarrow> fatal + (bool \<times> PhiAnalysis)" where
  "isRequiredAfter cfg n block phi =
     (case deref cfg block of
        None \<Rightarrow> Inl Abort
      | Some b \<Rightarrow>
          if length (successors b) \<noteq> 1 then Inr (False, phi)
          else Inr (isRequired n (successors b ! 0) phi))"

definition isPotentiallyUndefinedAfter ::
    "CFG \<Rightarrow> string \<Rightarrow> nat \<Rightarrow> PhiAnalysis \<Rightarrow> fatal + (bool \<times> PhiAnalysis)" where
  "isPotentiallyUndefinedAfter cfg n block phi =
     (case deref cfg block of
        None \<Rightarrow> Inl Abort
      | Some b \<Rightarrow>
          if \<not> length (successors b) > 0 then Inl AssertNoSuccessor
          else let r = isDefinedAt n (successors b ! 0) (definedness phi) in
            if fst r = Undefined then Inl AssertUndefinedLevel
            else Inr (fst r = PotentiallyDefined, phi\<lparr>definedness := snd r\<rparr>))"

section \<open>The fixed-point engine\<close>

text \<open>
  Modelled from the spec: the generic engine \<^verbatim>\<open>computeFixedPoint\<close> (\<^verbatim>\<open>analysis/fpc.h\<close>) is
  not part of the analysed file. Its contract in the spec: the engine iterates block
  transfers in forward order, feeds the exit state of a block to its successors through
  \<^verbatim>\<open>merge\<close> and \<^verbatim>\<open>mergeBlank\<close> to produce their entry states, repeats until no block's
  result changes, and returns the entry map of every block. The reading taken here,
  which the scenarios of the spec determine: the entry block starts with the empty map;
  of the pending blocks the one of least index is taken up; the exit state of a block is
  the result of \<^verbatim>\<open>processBB\<close> on its entry state; a successor that has no entry state
  yet takes the exit state as it is; otherwise a name that both maps hold gets
  \<^verbatim>\<open>merge\<close> of the two values (\<open>from\<close> the exit state, \<open>into\<close> the entry state) and a
  name that only one of them holds gets \<^verbatim>\<open>mergeBlank\<close> of its value; a successor whose
  entry state changed becomes pending. The result \<open>None\<close> of \<open>fp_loop\<close> stands for a
  computation that does not return.
\<close>

fun join_value ::
    "DefinitionLevel option \<Rightarrow> DefinitionLevel option \<Rightarrow> fatal + DefinitionLevel option" where
  "join_value None None = Inr None"
| "join_value (Some v) None = map_sum id Some (mergeBlank v)"
| "join_value None (Some w) = map_sum id Some (mergeBlank w)"
| "join_value (Some v) (Some w) = map_sum id Some (merge v w)"

text \<open>
  Modelled from the spec: the exit state \<open>ending\<close> of a block combined with the entry
  state \<open>next\<close> that a successor already has, name by name.
\<close>

definition feed :: "Map \<Rightarrow> Map \<Rightarrow> fatal + Map" where
  "feed ending next =
     (if \<exists>n\<in>dom ending \<union> dom next. isl (join_value (ending n) (next n))
      then Inl AssertUndefinedArg
      else Inr (\<lambda>n. case join_value (ending n) (next n) of Inl x \<Rightarrow> None | Inr r \<Rightarrow> r))"

text \<open>
  Modelled from the spec: the loop over the successors of the block taken up. A successor
  is appended to the pending blocks when it gets its first entry state or when a value
  of its entry state changed.
\<close>

fun feed_successors ::
    "Map \<Rightarrow> nat list \<Rightarrow> (nat \<rightharpoonup> Map) \<times> nat list \<Rightarrow> fatal + (nat \<rightharpoonup> Map) \<times> nat list" where
  "feed_successors ending [] (states, q) = Inr (states, q)"
| "feed_successors ending (s # ss) (states, q) =
     (case states s of
        None \<Rightarrow> feed_successors ending ss (states(s \<mapsto> ending), q @ [s])
      | Some next \<Rightarrow>
          (case feed ending next of
             Inl x \<Rightarrow> Inl x
           | Inr next' \<Rightarrow>
               feed_successors ending ss
                 (states(s \<mapsto> next'),
                  if \<exists>n\<in>dom ending \<union> dom next. next' n \<noteq> next n then q @ [s] else q)))"

text \<open>Modelled from the spec: the pending block of least index.\<close>

fun least :: "nat list \<Rightarrow> nat" where
  "least [] = 0"
| "least [x] = x"
| "least (x # y # ys) = min x (least (y # ys))"

text \<open>
  Modelled from the spec: the state of the engine is the graph, the table of entry
  states and the pending blocks. One round takes up a block, runs \<^verbatim>\<open>processBB\<close> on a
  copy of its entry state, puts the block back as \<^verbatim>\<open>processBB\<close> left it and feeds the
  successors.
\<close>

record fp_state =
  graph :: CFG
  states :: "nat \<rightharpoonup> Map"
  pending :: "nat list"

definition fp_step :: "AST_arguments option \<Rightarrow> fp_state \<Rightarrow> fatal + fp_state" where
  "fp_step arguments st =
     (let block = least (pending st); q = remove1 block (pending st) in
      case deref (graph st) block of
        None \<Rightarrow> Inl Abort
      | Some b \<Rightarrow>
          let r = subscript (states st) block Map.empty in
          case processBB arguments (fst r) b of
            Inl x \<Rightarrow> Inl x
          | Inr (b', ending) \<Rightarrow>
              (case feed_successors ending (successors b) (snd r, q) of
                 Inl x \<Rightarrow> Inl x
               | Inr (states', q') \<Rightarrow>
                   Inr \<lparr>graph = (graph st)\<lparr>blocks := (blocks (graph st))[block := b']\<rparr>,
                        states = states', pending = q'\<rparr>))"

text \<open>Modelled from the spec: rounds are repeated until no block is pending.\<close>

partial_function (option) fp_loop ::
    "AST_arguments option \<Rightarrow> fp_state \<Rightarrow> (fatal + CFG \<times> (nat \<rightharpoonup> Map)) option" where
  "fp_loop arguments st =
     (if pending st = [] then Some (Inr (graph st, states st))
      else if isl (fp_step arguments st) then Some (Inl (projl (fp_step arguments st)))
      else fp_loop arguments (projr (fp_step arguments st)))"

text \<open>
  Modelled from the spec: the computation starts with the entry block \<^verbatim>\<open>cfg->blocks[0]\<close>
  pending and the empty map as its entry state, and returns the table of entry states
  (together with the graph as the transfers left it).
\<close>

definition computeFixedPoint ::
    "AST_arguments option \<Rightarrow> CFG \<Rightarrow> (fatal + CFG \<times> (nat \<rightharpoonup> Map)) option" where
  "computeFixedPoint arguments cfg =
     (if blocks cfg = [] then Some (Inl Abort)
      else fp_loop arguments \<lparr>graph = cfg, states = [0 \<mapsto> Map.empty], pending = [0]\<rparr>)"

section \<open>Auxiliary notions\<close>

text \<open>
  A visitor state \<open>v'\<close> grows out of \<open>v\<close> when both sets have only gained names and, if
  they were disjoint before, they still are.
\<close>

definition grows :: "LivenessBBVisitor \<Rightarrow> LivenessBBVisitor \<Rightarrow> bool" where
  "grows v v' = (loads v \<subseteq> loads v' \<and> stores v \<subseteq> stores v' \<and>
     (loads v \<inter> stores v = {} \<longrightarrow> loads v' \<inter> stores v' = {}))"


subsection \<open>Read and write sets\<close>

text \<open>
  The name that an alias of an import binds: the alias name if there is one, the
  imported name otherwise.
\<close>

definition bound_name :: "AST_alias \<Rightarrow> string" where
  "bound_name a = (if length (alias_asname a) \<noteq> 0 then alias_asname a else alias_name a)"

text \<open>
  The name accesses of a block, read off the syntax in the order of the statements: a
  name reference is an access with its tag; a class or function definition is a write
  access to its name and its body contributes nothing; the value of an assignment comes
  before its targets; every other statement contributes the name references of its
  sub-expressions. Whether an import contributes a write access to every name it binds
  is the parameter \<open>imports_bind\<close>: the classification stated for the analyses has
  it, the liveness visitor of the source has no hook for imports.

  A block reads a name when the first access to the name in the block is tagged
  \<open>Load\<close>, and writes it when the first access is tagged \<open>Store\<close>: an access to a name
  after the first one to it changes neither set.
\<close>

fun expr_accesses :: "AST_expr \<Rightarrow> (string \<times> ctx_type) list"
  and exprs_accesses :: "AST_expr list \<Rightarrow> (string \<times> ctx_type) list" where
  "expr_accesses (Name n c) = [(n, c)]"
| "expr_accesses (Attribute e a) = expr_accesses e"
| "expr_accesses (Subscript e s) = expr_accesses e @ expr_accesses s"
| "expr_accesses (Tuple es) = exprs_accesses es"
| "expr_accesses (OtherExpr es) = exprs_accesses es"
| "exprs_accesses [] = []"
| "exprs_accesses (e # es) = expr_accesses e @ exprs_accesses es"

fun stmt_accesses :: "bool \<Rightarrow> AST_stmt \<Rightarrow> (string \<times> ctx_type) list" where
  "stmt_accesses imports_bind (Assign targets val) = expr_accesses val @ exprs_accesses targets"
| "stmt_accesses imports_bind (Branch test) = expr_accesses test"
| "stmt_accesses imports_bind (ClassDef n b) = [(n, Store)]"
| "stmt_accesses imports_bind (Expr e) = expr_accesses e"
| "stmt_accesses imports_bind (FunctionDef n b) = [(n, Store)]"
| "stmt_accesses imports_bind (Global ns) = []"
| "stmt_accesses imports_bind (Import als) =
     (if imports_bind then map (\<lambda>a. (bound_name a, Store)) als else [])"
| "stmt_accesses imports_bind Jump = []"
| "stmt_accesses imports_bind Pass = []"
| "stmt_accesses imports_bind (Print es) = exprs_accesses es"
| "stmt_accesses imports_bind (Return None) = []"
| "stmt_accesses imports_bind (Return (Some e)) = expr_accesses e"

definition block_accesses :: "bool \<Rightarrow> CFGBlock \<Rightarrow> (string \<times> ctx_type) list" where
  "block_accesses imports_bind b = concat (map (stmt_accesses imports_bind) (body b))"

definition reads :: "bool \<Rightarrow> CFG \<Rightarrow> string \<Rightarrow> nat \<Rightarrow> bool" where
  "reads imports_bind cfg n p =
     (case deref cfg p of
        None \<Rightarrow> False
      | Some b \<Rightarrow> map_of (block_accesses imports_bind b) n = Some Load)"

definition writes :: "bool \<Rightarrow> CFG \<Rightarrow> string \<Rightarrow> nat \<Rightarrow> bool" where
  "writes imports_bind cfg n p =
     (case deref cfg p of
        None \<Rightarrow> False
      | Some b \<Rightarrow> map_of (block_accesses imports_bind b) n = Some Store)"

text \<open>
  The accesses replayed on a visitor state, one \<^verbatim>\<open>_doLoad\<close> or \<^verbatim>\<open>_doStore\<close> each.
\<close>

fun replay :: "(string \<times> ctx_type) list \<Rightarrow> LivenessBBVisitor \<Rightarrow> LivenessBBVisitor" where
  "replay [] v = v"
| "replay (a # as) v = replay as (if snd a = Load then doLoad (fst a) v else doStore (fst a) v)"

subsection \<open>Forward paths\<close>

definition edge :: "CFG \<Rightarrow> nat \<Rightarrow> nat \<Rightarrow> bool" where
  "edge cfg p p' = (case deref cfg p of None \<Rightarrow> False | Some b \<Rightarrow> p' \<in> set (successors b))"

text \<open>
  A trace for \<open>n\<close> is a non-empty forward path whose last block reads \<open>n\<close> and none of
  whose earlier blocks writes \<open>n\<close>. A live path of \<open>block\<close> is such a trace that starts at
  a successor of \<open>block\<close> and visits no block twice. \<open>live_from\<close> is the same notion by
  steps, for the read and write sets without the imports.
\<close>

definition trace :: "bool \<Rightarrow> CFG \<Rightarrow> string \<Rightarrow> nat list \<Rightarrow> bool" where
  "trace imports_bind cfg n path =
     (path \<noteq> [] \<and> successively (edge cfg) path
      \<and> (\<forall>p\<in>set (butlast path). \<not> writes imports_bind cfg n p)
      \<and> reads imports_bind cfg n (last path))"

definition live_path :: "bool \<Rightarrow> CFG \<Rightarrow> string \<Rightarrow> nat \<Rightarrow> nat list \<Rightarrow> bool" where
  "live_path imports_bind cfg n block path =
     (trace imports_bind cfg n path \<and> distinct path \<and> edge cfg block (hd path))"

inductive live_from :: "CFG \<Rightarrow> string \<Rightarrow> nat \<Rightarrow> bool" for cfg n where
  hit: "reads False cfg n p \<Longrightarrow> live_from cfg n p"
| step: "\<not> writes False cfg n p \<Longrightarrow> edge cfg p s \<Longrightarrow> live_from cfg n s \<Longrightarrow> live_from cfg n p"

text \<open>
  A graph is well formed when every predecessor and successor entry is a block of the
  graph and every name reference in a block is tagged \<open>Load\<close> or \<open>Store\<close>.
\<close>

definition wf_cfg :: "CFG \<Rightarrow> bool" where
  "wf_cfg cfg =
     (\<forall>b\<in>set (blocks cfg).
        (\<forall>s\<in>set (successors b). s < length (blocks cfg))
        \<and> (\<forall>p\<in>set (predecessors b). p < length (blocks cfg))
        \<and> (\<forall>a\<in>set (block_accesses False b). snd a \<noteq> Param))"

subsection \<open>Example graphs\<close>

text \<open>
  \<^verbatim>\<open>x = g = ...; if ...: y = ...; print x, g\<close>: block 0 branches to the merge block 2
  directly and through block 1. \<open>fp_ex\<close> is the table of entry maps of this graph,
  \<open>args_ex\<close> is the parameter list \<^verbatim>\<open>(a, *va, **kw)\<close> and \<open>scope_ex\<close> resolves \<open>g\<close> as a
  global.
\<close>

definition cfg_ex :: CFG where
  "cfg_ex = \<lparr>blocks =
     [\<lparr>idx = 0,
       body = [Assign [Name ''x'' Store, Name ''g'' Store] (OtherExpr []), Branch (OtherExpr [])],
       predecessors = [], successors = [2, 1]\<rparr>,
      \<lparr>idx = 1, body = [Assign [Name ''y'' Store] (OtherExpr []), Jump],
       predecessors = [0], successors = [2]\<rparr>,
      \<lparr>idx = 2, body = [Print [Name ''x'' Load, Name ''g'' Load], Return None],
       predecessors = [0, 1], successors = []\<rparr>]\<rparr>"

definition fp_ex :: "nat \<rightharpoonup> Map" where
  "fp_ex = [0 \<mapsto> Map.empty,
            1 \<mapsto> [''x'' \<mapsto> Defined, ''g'' \<mapsto> Defined],
            2 \<mapsto> [''x'' \<mapsto> Defined, ''g'' \<mapsto> Defined, ''y'' \<mapsto> PotentiallyDefined]]"

definition args_ex :: AST_arguments where
  "args_ex = \<lparr>args = [Name ''a'' Param], kwarg = Some (Name ''kw'' Param), vararg = ''va''\<rparr>"

definition scope_ex :: ScopeInfo where
  "scope_ex = \<lparr>refersToGlobal = (\<lambda>n. n = ''g'')\<rparr>"

text \<open>
  A chain of three blocks: block 1 holds the one statement \<open>s\<close> and block 2 prints \<open>x\<close>.
\<close>

definition cfg_chain :: "AST_stmt \<Rightarrow> CFG" where
  "cfg_chain s = \<lparr>blocks =
     [\<lparr>idx = 0, body = [Jump], predecessors = [], successors = [1]\<rparr>,
      \<lparr>idx = 1, body = [s, Jump], predecessors = [0], successors = [2]\<rparr>,
      \<lparr>idx = 2, body = [Print [Name ''x'' Load], Return None],
       predecessors = [1], successors = []\<rparr>]\<rparr>"

subsection \<open>Notions for the fixed point\<close>

text \<open>
  The names that a syntax node binds, read off the syntax: a class or function definition
  binds its name; an import binds the bound name of every alias; an assignment binds the names among its targets, where a
  tuple target stands for its elements and an attribute or subscript target binds
  nothing; the parameter list binds the keyword catch-all, the variadic parameter and
  every ordinary parameter. A block binds what its statements bind and, if its index is
  0 and there is a parameter list, what the parameter list binds. A target is in order
  when the visit does not run into the default case of \<^verbatim>\<open>_doSet\<close>. \<open>rebind\<close> gives a node
  as the visit leaves it.
\<close>

definition define_all :: "string set \<Rightarrow> Map \<Rightarrow> Map" where
  "define_all D st = (\<lambda>n. if n \<in> D then Some Defined else st n)"

fun target_names :: "AST_expr \<Rightarrow> string set"
  and targets_names :: "AST_expr list \<Rightarrow> string set" where
  "target_names (Name n c) = {n}"
| "target_names (Attribute e a) = {}"
| "target_names (Subscript e s) = {}"
| "target_names (Tuple elts) = targets_names elts"
| "target_names (OtherExpr es) = {}"
| "targets_names [] = {}"
| "targets_names (t # ts) = target_names t \<union> targets_names ts"

fun target_ok :: "AST_expr \<Rightarrow> bool"
  and targets_ok :: "AST_expr list \<Rightarrow> bool" where
  "target_ok (Name n c) = True"
| "target_ok (Attribute e a) = True"
| "target_ok (Subscript e s) = True"
| "target_ok (Tuple elts) = targets_ok elts"
| "target_ok (OtherExpr es) = False"
| "targets_ok [] = True"
| "targets_ok (t # ts) = (target_ok t \<and> targets_ok ts)"

definition rebind :: "AST_alias \<Rightarrow> AST_alias" where
  "rebind a = (if length (alias_asname a) \<noteq> 0 then Alias (alias_asname a) (alias_asname a) else a)"

fun stmt_names :: "AST_stmt \<Rightarrow> string set" where
  "stmt_names (ClassDef n b) = {n}"
| "stmt_names (FunctionDef n b) = {n}"
| "stmt_names (Import als) = bound_name ` set als"
| "stmt_names (Assign targets val) = targets_names targets"
| "stmt_names s = {}"

fun stmt_ok :: "AST_stmt \<Rightarrow> bool" where
  "stmt_ok (Assign targets val) = targets_ok targets"
| "stmt_ok s = True"

fun rebind_stmt :: "AST_stmt \<Rightarrow> AST_stmt" where
  "rebind_stmt (Import als) = Import (map rebind als)"
| "rebind_stmt s = s"

definition args_names :: "AST_arguments \<Rightarrow> string set" where
  "args_names node =
     (case kwarg node of None \<Rightarrow> {} | Some k \<Rightarrow> target_names k)
     \<union> (if length (vararg node) \<noteq> 0 then {vararg node} else {})
     \<union> targets_names (args node)"

definition args_ok :: "AST_arguments \<Rightarrow> bool" where
  "args_ok node =
     ((case kwarg node of None \<Rightarrow> True | Some k \<Rightarrow> target_ok k) \<and> targets_ok (args node))"

definition block_names :: "AST_arguments option \<Rightarrow> CFGBlock \<Rightarrow> string set" where
  "block_names arguments b =
     (\<Union>s\<in>set (body b). stmt_names s)
     \<union> (if idx b = 0 \<and> arguments \<noteq> None then args_names (the arguments) else {})"

definition block_ok :: "AST_arguments option \<Rightarrow> CFGBlock \<Rightarrow> bool" where
  "block_ok arguments b =
     ((\<forall>s\<in>set (body b). stmt_ok s)
      \<and> (idx b = 0 \<and> arguments \<noteq> None \<longrightarrow> args_ok (the arguments)))"

definition rebind_block :: "CFGBlock \<Rightarrow> CFGBlock" where
  "rebind_block b = b\<lparr>body := map rebind_stmt (body b)\<rparr>"

text \<open>
  Paths from the entry block to the entry of a block, listed from the block last left
  back to the entry block; the empty path reaches the entry block. A name is written on
  a path when a block of the path binds it. The transfer is well formed on a graph when
  the graph has an entry block, every successor entry is a block of the graph and every
  target of every block is in order.
\<close>

fun entry_path :: "CFG \<Rightarrow> nat list \<Rightarrow> nat \<Rightarrow> bool" where
  "entry_path cfg [] b = (b = 0)"
| "entry_path cfg (p # path) b = (edge cfg p b \<and> entry_path cfg path p)"

definition written_on :: "AST_arguments option \<Rightarrow> CFG \<Rightarrow> string \<Rightarrow> nat list \<Rightarrow> bool" where
  "written_on arguments cfg n path =
     (\<exists>p\<in>set path.
        case deref cfg p of None \<Rightarrow> False | Some b \<Rightarrow> n \<in> block_names arguments b)"

definition wf_transfer :: "AST_arguments option \<Rightarrow> CFG \<Rightarrow> bool" where
  "wf_transfer arguments cfg =
     (blocks cfg \<noteq> []
      \<and> (\<forall>b\<in>set (blocks cfg).
            (\<forall>s\<in>set (successors b). s < length (blocks cfg))
            \<and> block_ok arguments b))"

text \<open>
  A value of a map is witnessed at a block when paths justify it: an absent name by a
  path that does not write it, \<open>Defined\<close> by a path that writes it, \<open>PotentiallyDefined\<close>
  by one path of each kind.
\<close>

definition wit ::
    "AST_arguments option \<Rightarrow> CFG \<Rightarrow> nat \<Rightarrow> string \<Rightarrow> DefinitionLevel option \<Rightarrow> bool" where
  "wit arguments cfg b n v =
     (case v of
        None \<Rightarrow> (\<exists>path. entry_path cfg path b \<and> \<not> written_on arguments cfg n path)
      | Some Defined \<Rightarrow> (\<exists>path. entry_path cfg path b \<and> written_on arguments cfg n path)
      | Some PotentiallyDefined \<Rightarrow>
          (\<exists>path. entry_path cfg path b \<and> written_on arguments cfg n path)
          \<and> (\<exists>path. entry_path cfg path b \<and> \<not> written_on arguments cfg n path)
      | Some Undefined \<Rightarrow> False)"

definition witnessed :: "AST_arguments option \<Rightarrow> CFG \<Rightarrow> nat \<Rightarrow> Map \<Rightarrow> bool" where
  "witnessed arguments cfg b m = (\<forall>n. wit arguments cfg b n (m n))"

text \<open>
  Maps without the value \<open>Undefined\<close>, the join that \<open>feed\<close> computes on them, and the
  order in which entry states move.
\<close>

definition proper :: "Map \<Rightarrow> bool" where
  "proper m = (\<forall>n. m n \<noteq> Some Undefined)"

definition all_proper :: "(nat \<rightharpoonup> Map) \<Rightarrow> bool" where
  "all_proper table = (\<forall>b m. table b = Some m \<longrightarrow> proper m)"

definition join_map :: "Map \<Rightarrow> Map \<Rightarrow> Map" where
  "join_map e m = (\<lambda>n. if e n = m n then m n else Some PotentiallyDefined)"

definition le_val :: "DefinitionLevel option \<Rightarrow> DefinitionLevel option \<Rightarrow> bool" where
  "le_val v w = (v = w \<or> w = Some PotentiallyDefined)"

definition le_map :: "Map \<Rightarrow> Map \<Rightarrow> bool" where
  "le_map m m' = (\<forall>n. le_val (m n) (m' n))"

definition le_states :: "(nat \<rightharpoonup> Map) \<Rightarrow> (nat \<rightharpoonup> Map) \<Rightarrow> bool" where
  "le_states t t' = (\<forall>b m. t b = Some m \<longrightarrow> (\<exists>m'. t' b = Some m' \<and> le_map m m'))"

text \<open>
  The invariant of the loop: the graph differs from the given one only in the alias
  names that \<^verbatim>\<open>visit_import\<close> overwrote; every pending block has an entry state; every
  entry state belongs to a block of the graph and is witnessed; the entry state of the
  entry block holds no \<open>Defined\<close>; and every block that is not pending is stable: the
  entry states of its successors are above its exit state. The progress set grows with
  every change of an entry state and stays inside a finite universe.
\<close>

definition similar :: "AST_arguments option \<Rightarrow> CFGBlock \<Rightarrow> CFGBlock \<Rightarrow> bool" where
  "similar arguments b b0 =
     (successors b = successors b0
      \<and> block_names arguments b = block_names arguments b0
      \<and> block_ok arguments b = block_ok arguments b0)"

definition sim :: "AST_arguments option \<Rightarrow> CFG \<Rightarrow> CFG \<Rightarrow> bool" where
  "sim arguments g cfg =
     (length (blocks g) = length (blocks cfg)
      \<and> (\<forall>i<length (blocks cfg). similar arguments (blocks g ! i) (blocks cfg ! i)))"

definition stable :: "AST_arguments option \<Rightarrow> CFG \<Rightarrow> (nat \<rightharpoonup> Map) \<Rightarrow> nat \<Rightarrow> bool" where
  "stable arguments cfg t b =
     (\<forall>m. t b = Some m \<longrightarrow>
        (\<forall>s\<in>set (successors (blocks cfg ! b)).
           \<exists>m'. t s = Some m'
             \<and> le_map (define_all (block_names arguments (blocks cfg ! b)) m) m'))"

definition Inv :: "AST_arguments option \<Rightarrow> CFG \<Rightarrow> fp_state \<Rightarrow> bool" where
  "Inv arguments cfg st =
     (sim arguments (graph st) cfg
      \<and> set (pending st) \<subseteq> dom (states st)
      \<and> (\<forall>b m. states st b = Some m \<longrightarrow>
            b < length (blocks cfg) \<and> witnessed arguments cfg b m)
      \<and> (\<exists>m0. states st 0 = Some m0 \<and> (\<forall>n. m0 n \<noteq> Some Defined))
      \<and> (\<forall>b. b \<notin> set (pending st) \<longrightarrow> stable arguments cfg (states st) b))"

definition progress_set :: "(nat \<rightharpoonup> Map) \<Rightarrow> (nat \<times> string option) set" where
  "progress_set t =
     {(b, None) | b. t b \<noteq> None}
     \<union> {(b, Some n) | b n. \<exists>m. t b = Some m \<and> m n = Some PotentiallyDefined}"

definition universe :: "AST_arguments option \<Rightarrow> CFG \<Rightarrow> (nat \<times> string option) set" where
  "universe arguments cfg =
     {..<length (blocks cfg)}
     \<times> insert None (Some ` (\<Union>b\<in>set (blocks cfg). block_names arguments b))"

section \<open>The statement classifier\<close>

lemma grows_refl: "grows v v"
  by (simp add: grows_def)

lemma grows_trans: "grows a b \<Longrightarrow> grows b c \<Longrightarrow> grows a c"
  by (auto simp: grows_def)

lemma doLoad_grows: "grows v (doLoad n v)"
  by (auto simp: grows_def doLoad_def)

lemma doStore_grows: "grows v (doStore n v)"
  by (auto simp: grows_def doStore_def)

lemma visit_name_grows: "visit_name n c v = Inr v' \<Longrightarrow> grows v v'"
  by (cases c) (auto simp: doLoad_grows doStore_grows)

lemma accept_expr_grows: "accept_expr e v = Inr v' \<Longrightarrow> grows v v'"
  and accept_exprs_grows: "accept_exprs es v = Inr v' \<Longrightarrow> grows v v'"
proof (induction e v and es v arbitrary: v' and v' rule: accept_expr_accept_exprs.induct)
  case (1 n c v)
  then show ?case by (simp add: visit_name_grows)
next
  case (3 e s v)
  then show ?case by (auto split: sum.splits intro: grows_trans)
next
  case (7 e es v)
  then show ?case by (auto split: sum.splits intro: grows_trans)
qed (auto simp: grows_refl)

lemma accept_stmt_grows: "accept_stmt s v = Inr v' \<Longrightarrow> grows v v'"
proof (induction s v rule: accept_stmt.induct)
  case (1 targets val v)
  then show ?case
    by (auto split: sum.splits intro: grows_trans accept_expr_grows accept_exprs_grows)
qed (auto simp: grows_refl doStore_grows intro: accept_expr_grows accept_exprs_grows)

lemma accept_body_grows: "accept_body ss v = Inr v' \<Longrightarrow> grows v v'"
proof (induction ss arbitrary: v)
  case Nil
  then show ?case by (simp add: grows_refl)
next
  case (Cons s ss)
  then show ?case
    by (auto split: sum.splits intro: grows_trans accept_stmt_grows)
qed

lemma accept_body_append:
  "accept_body (ss1 @ ss2) v =
     (case accept_body ss1 v of Inl x \<Rightarrow> Inl x | Inr v' \<Rightarrow> accept_body ss2 v')"
  by (induction ss1 arbitrary: v) (auto split: sum.splits)

lemma new_visitor_disjoint: "loads new_visitor \<inter> stores new_visitor = {}"
  by (simp add: new_visitor_def)

text \<open>
  Claim C6. Within the classification pass of one block, which starts from a fresh
  visitor: let \<open>v1\<close> be the visitor after a first part \<open>ss1\<close> of the block's statements
  and \<open>v2\<close> the visitor after the rest \<open>ss2\<close>. A name recorded as read in \<open>v1\<close> is still
  recorded as read in \<open>v2\<close> and is not recorded as written there, whatever \<open>ss2\<close> writes;
  a name recorded as written in \<open>v1\<close> is still recorded as written in \<open>v2\<close> and is not
  recorded as read there, whatever \<open>ss2\<close> reads.
\<close>

theorem read_write_exclusive:
  assumes "accept_body ss1 new_visitor = Inr v1" and "accept_body ss2 v1 = Inr v2"
  shows "accept_body (ss1 @ ss2) new_visitor = Inr v2
    \<and> (n \<in> loads v1 \<longrightarrow> n \<in> loads v2 \<and> n \<notin> stores v2)
    \<and> (n \<in> stores v1 \<longrightarrow> n \<in> stores v2 \<and> n \<notin> loads v2)"
proof -
  have run: "accept_body (ss1 @ ss2) new_visitor = Inr v2"
    using assms by (simp add: accept_body_append)
  have "grows new_visitor v1"
    using assms(1) by (rule accept_body_grows)
  then have d1: "loads v1 \<inter> stores v1 = {}"
    using new_visitor_disjoint by (simp add: grows_def)
  have g: "grows v1 v2"
    using assms(2) by (rule accept_body_grows)
  with d1 have d2: "loads v2 \<inter> stores v2 = {}"
    by (simp add: grows_def)
  from g have "loads v1 \<subseteq> loads v2" and "stores v1 \<subseteq> stores v2"
    by (simp_all add: grows_def)
  with d2 run show ?thesis by auto
qed

text \<open>
  The block \<^verbatim>\<open>x; x = ...\<close> reads \<open>x\<close> and then assigns it: the read is recorded and the
  write is not.
\<close>

theorem read_write_exclusive_witness:
  "accept_body [Expr (Name ''x'' Load)] new_visitor = Inr \<lparr>loads = {''x''}, stores = {}\<rparr>
   \<and> accept_body [Assign [Name ''x'' Store] (OtherExpr [])] \<lparr>loads = {''x''}, stores = {}\<rparr>
       = Inr \<lparr>loads = {''x''}, stores = {}\<rparr>
   \<and> accept_body ([Expr (Name ''x'' Load)] @ [Assign [Name ''x'' Store] (OtherExpr [])])
         new_visitor = Inr \<lparr>loads = {''x''}, stores = {}\<rparr>"
proof -
  have a: "accept_body [Expr (Name ''x'' Load)] new_visitor = Inr \<lparr>loads = {''x''}, stores = {}\<rparr>"
    by (simp add: new_visitor_def doLoad_def)
  have b: "accept_body [Assign [Name ''x'' Store] (OtherExpr [])] \<lparr>loads = {''x''}, stores = {}\<rparr>
       = Inr \<lparr>loads = {''x''}, stores = {}\<rparr>"
    by (simp add: doStore_def)
  from read_write_exclusive [OF a b, of "''x''"] a b show ?thesis by simp
qed

section \<open>The liveness oracle\<close>

subsection \<open>The classification of a block and its accesses\<close>

lemma replay_append: "replay (xs @ ys) v = replay ys (replay xs v)"
  by (induction xs arbitrary: v) simp_all

lemma accept_expr_replay:
  "accept_expr e v = (if Param \<in> snd ` set (expr_accesses e) then Inl Abort
                      else Inr (replay (expr_accesses e) v))"
  and accept_exprs_replay:
  "accept_exprs es v = (if Param \<in> snd ` set (exprs_accesses es) then Inl Abort
                        else Inr (replay (exprs_accesses es) v))"
proof (induction e v and es v rule: accept_expr_accept_exprs.induct)
  case (1 n c v)
  then show ?case by (cases c) simp_all
next
  case (3 e s v)
  then show ?case by (auto simp: replay_append image_Un)
next
  case (7 e es v)
  then show ?case by (auto simp: replay_append image_Un)
qed simp_all

lemma accept_stmt_replay:
  "accept_stmt s v = (if Param \<in> snd ` set (stmt_accesses False s) then Inl Abort
                      else Inr (replay (stmt_accesses False s) v))"
proof (induction s v rule: accept_stmt.induct)
  case (1 targets val v)
  then show ?case
    by (auto simp: accept_expr_replay accept_exprs_replay replay_append image_Un)
qed (simp_all add: accept_expr_replay accept_exprs_replay)

lemma accept_body_replay:
  "accept_body ss v =
     (if Param \<in> snd ` set (concat (map (stmt_accesses False) ss)) then Inl Abort
      else Inr (replay (concat (map (stmt_accesses False) ss)) v))"
proof (induction ss arbitrary: v)
  case Nil
  then show ?case by simp
next
  case (Cons s ss)
  then show ?case by (auto simp: accept_stmt_replay replay_append image_Un)
qed

lemma classify_replay:
  "classify b = (if Param \<in> snd ` set (block_accesses False b) then Inl Abort
                 else Inr (replay (block_accesses False b) new_visitor))"
  by (simp add: classify_def block_accesses_def accept_body_replay)

lemma replay_loads:
  "n \<in> loads (replay xs v) \<longleftrightarrow> n \<in> loads v \<or> n \<notin> stores v \<and> map_of xs n = Some Load"
  by (induction xs arbitrary: v) (auto simp: doLoad_def doStore_def)

lemma replay_stores:
  "n \<in> stores (replay xs v) \<longleftrightarrow>
     n \<in> stores v \<or> n \<notin> loads v \<and> (\<exists>c. map_of xs n = Some c \<and> c \<noteq> Load)"
  by (induction xs arbitrary: v) (auto simp: doLoad_def doStore_def)

text \<open>
  The classification of a block whose name references are all tagged \<open>Load\<close> or
  \<open>Store\<close> returns, and its two sets are the names whose first access in the block is
  a load and a store.
\<close>

lemma classify_accesses:
  assumes "\<forall>a\<in>set (block_accesses False b). snd a \<noteq> Param"
  shows "\<exists>visitor. classify b = Inr visitor
    \<and> loads visitor = {n. map_of (block_accesses False b) n = Some Load}
    \<and> stores visitor = {n. map_of (block_accesses False b) n = Some Store}"
proof -
  let ?xs = "block_accesses False b"
  from assms have np: "Param \<notin> snd ` set ?xs" by force
  have c: "classify b = Inr (replay ?xs new_visitor)"
    using np by (simp add: classify_replay)
  have l: "loads (replay ?xs new_visitor) = {n. map_of ?xs n = Some Load}"
    by (auto simp: replay_loads new_visitor_def)
  have "(\<exists>c. map_of ?xs n = Some c \<and> c \<noteq> Load) = (map_of ?xs n = Some Store)" for n
  proof
    assume "\<exists>c. map_of ?xs n = Some c \<and> c \<noteq> Load"
    then obtain c where c: "map_of ?xs n = Some c" "c \<noteq> Load" by blast
    then have "(n, c) \<in> set ?xs" by (auto dest: map_of_SomeD)
    with assms have "c \<noteq> Param" by force
    with c show "map_of ?xs n = Some Store" by (cases c) auto
  qed auto
  then have s: "stores (replay ?xs new_visitor) = {n. map_of ?xs n = Some Store}"
    by (auto simp: replay_stores new_visitor_def)
  from c l s show ?thesis by simp
qed

lemma wf_classify:
  assumes "wf_cfg cfg" and "b \<in> set (blocks cfg)"
  shows "\<exists>visitor. classify b = Inr visitor
    \<and> loads visitor = {n. map_of (block_accesses False b) n = Some Load}
    \<and> stores visitor = {n. map_of (block_accesses False b) n = Some Store}"
  using assms by (intro classify_accesses) (simp add: wf_cfg_def)

subsection \<open>The traversal\<close>

lemma visited_closed:
  assumes "live_from cfg n v" and "v \<in> visited"
    and "\<forall>v\<in>visited. \<not> reads False cfg n v"
    and "\<forall>v\<in>visited. \<not> writes False cfg n v \<longrightarrow> (\<forall>s. edge cfg v s \<longrightarrow> s \<in> visited \<or> s \<in> set q)"
  shows "\<exists>x\<in>set q. live_from cfg n x"
  using assms
proof (induction rule: live_from.induct)
  case (hit p)
  then show ?case by blast
next
  case (step p s)
  then have "s \<in> visited \<or> s \<in> set q" by blast
  then show ?case
  proof
    assume "s \<in> visited"
    with step show ?thesis by blast
  next
    assume "s \<in> set q"
    with step show ?thesis by blast
  qed
qed

lemma liveness_loop_correct:
  assumes "wf_cfg cfg"
    and "\<forall>x\<in>set q. x < length (blocks cfg)"
    and "\<forall>v\<in>visited. \<not> reads False cfg n v"
    and "\<forall>v\<in>visited. \<not> writes False cfg n v \<longrightarrow> (\<forall>s. edge cfg v s \<longrightarrow> s \<in> visited \<or> s \<in> set q)"
  shows "liveness_loop cfg n visited q = Inr (\<exists>x\<in>set q. live_from cfg n x)"
  using assms
proof (induction cfg n visited q rule: liveness_loop.induct)
  case (1 cfg n visited)
  then show ?case by simp
next
  case (2 cfg n visited thisblock q)
  show ?case
  proof (cases "thisblock \<in> visited")
    case True
    have i2: "\<forall>v\<in>visited. \<not> writes False cfg n v \<longrightarrow> (\<forall>s. edge cfg v s \<longrightarrow> s \<in> visited \<or> s \<in> set q)"
      using "2.prems"(4) True by auto
    have "liveness_loop cfg n visited q = Inr (\<exists>x\<in>set q. live_from cfg n x)"
      using "2.IH"(1) [OF True "2.prems"(1) _ "2.prems"(3) i2] "2.prems"(2) by simp
    moreover have "live_from cfg n thisblock \<Longrightarrow> \<exists>x\<in>set q. live_from cfg n x"
      using visited_closed [OF _ True "2.prems"(3) i2] by blast
    ultimately show ?thesis using True by auto
  next
    case False
    from "2.prems"(2) have inrange: "thisblock < length (blocks cfg)" by simp
    define b where "b = blocks cfg ! thisblock"
    have d: "deref cfg thisblock = Some b"
      using inrange by (simp add: deref_def b_def)
    have bin: "b \<in> set (blocks cfg)"
      using inrange by (simp add: b_def)
    from wf_classify [OF "2.prems"(1) bin] obtain visitor where c: "classify b = Inr visitor"
      and ld: "loads visitor = {n. map_of (block_accesses False b) n = Some Load}"
      and st: "stores visitor = {n. map_of (block_accesses False b) n = Some Store}"
      by blast
    have succs: "\<forall>s\<in>set (successors b). s < length (blocks cfg)"
      using bin "2.prems"(1) by (auto simp: wf_cfg_def)
    have rd: "reads False cfg n thisblock = (n \<in> loads visitor)"
      by (simp add: reads_def d ld)
    have wr: "writes False cfg n thisblock = (n \<in> stores visitor)"
      by (simp add: writes_def d st)
    have ed: "\<And>s. edge cfg thisblock s = (s \<in> set (successors b))"
      by (simp add: edge_def d)
    show ?thesis
    proof (cases "n \<in> loads visitor")
      case True
      then have "live_from cfg n thisblock"
        using rd by (auto intro: live_from.hit)
      then show ?thesis using False d c True by auto
    next
      case nl: False
      show ?thesis
      proof (cases "n \<in> stores visitor")
        case ns: False
        have q': "\<forall>x\<in>set (q @ successors b). x < length (blocks cfg)"
          using "2.prems"(2) succs by auto
        have i1: "\<forall>v\<in>insert thisblock visited. \<not> reads False cfg n v"
          using "2.prems"(3) rd nl by auto
        have i2: "\<forall>v\<in>insert thisblock visited. \<not> writes False cfg n v \<longrightarrow>
            (\<forall>s. edge cfg v s \<longrightarrow> s \<in> insert thisblock visited \<or> s \<in> set (q @ successors b))"
          using "2.prems"(4) ed by auto
        have "liveness_loop cfg n (insert thisblock visited) (q @ successors b)
            = Inr (\<exists>x\<in>set (q @ successors b). live_from cfg n x)"
          using "2.IH"(2) [OF False d c nl _ "2.prems"(1) q' i1 i2] ns by simp
        moreover have "live_from cfg n thisblock = (\<exists>s\<in>set (successors b). live_from cfg n s)"
        proof
          assume "live_from cfg n thisblock"
          then show "\<exists>s\<in>set (successors b). live_from cfg n s"
            using rd nl ed by (cases rule: live_from.cases) auto
        next
          assume "\<exists>s\<in>set (successors b). live_from cfg n s"
          then show "live_from cfg n thisblock"
            using wr ns ed by (auto intro: live_from.step)
        qed
        ultimately show ?thesis using False d c nl ns by auto
      next
        case ns: True
        have i1: "\<forall>v\<in>insert thisblock visited. \<not> reads False cfg n v"
          using "2.prems"(3) rd nl by auto
        have i2: "\<forall>v\<in>insert thisblock visited. \<not> writes False cfg n v \<longrightarrow>
            (\<forall>s. edge cfg v s \<longrightarrow> s \<in> insert thisblock visited \<or> s \<in> set q)"
          using "2.prems"(4) wr ns by auto
        have q': "\<forall>x\<in>set q. x < length (blocks cfg)"
          using "2.prems"(2) by auto
        have "liveness_loop cfg n (insert thisblock visited) q
            = Inr (\<exists>x\<in>set q. live_from cfg n x)"
          using "2.IH"(3) [OF False d c nl _ "2.prems"(1) q' i1 i2] ns by simp
        moreover have "\<not> live_from cfg n thisblock"
        proof
          assume "live_from cfg n thisblock"
          then show False
            using rd nl wr ns by (cases rule: live_from.cases) auto
        qed
        ultimately show ?thesis using False d c nl ns by auto
      qed
    qed
  qed
qed


lemma trace_live_from: "trace False cfg n path \<Longrightarrow> live_from cfg n (hd path)"
proof (induction path)
  case Nil
  then show ?case by (simp add: trace_def)
next
  case (Cons p path)
  show ?case
  proof (cases path)
    case Nil
    with Cons.prems show ?thesis by (auto simp: trace_def intro: live_from.hit)
  next
    case (Cons p' rest)
    with Cons.prems have "trace False cfg n path"
      by (auto simp: trace_def)
    then have "live_from cfg n (hd path)" by (rule Cons.IH)
    moreover have "\<not> writes False cfg n p" and "edge cfg p (hd path)"
      using Cons.prems Cons by (auto simp: trace_def)
    ultimately show ?thesis by (auto intro: live_from.step)
  qed
qed

lemma trace_suffix:
  assumes "trace False cfg n (ys @ p # zs)"
  shows "trace False cfg n (p # zs)"
proof -
  have "butlast (ys @ p # zs) = ys @ butlast (p # zs)"
    by (simp add: butlast_append)
  then have "set (butlast (p # zs)) \<subseteq> set (butlast (ys @ p # zs))"
    by auto
  moreover have "successively (edge cfg) (p # zs)"
    using assms by (auto simp: trace_def successively_append_iff)
  moreover have "last (ys @ p # zs) = last (p # zs)"
    by simp
  ultimately show ?thesis
    using assms unfolding trace_def by (metis list.distinct(1) subsetD)
qed

lemma live_from_trace:
  "live_from cfg n x \<Longrightarrow> \<exists>path. trace False cfg n path \<and> distinct path \<and> hd path = x"
proof (induction rule: live_from.induct)
  case (hit p)
  then have "trace False cfg n [p] \<and> distinct [p] \<and> hd [p] = p"
    by (simp add: trace_def)
  then show ?case by blast
next
  case (step p s)
  then obtain path where path: "trace False cfg n path" "distinct path" "hd path = s"
    by blast
  show ?case
  proof (cases "p \<in> set path")
    case True
    then obtain ys zs where split: "path = ys @ p # zs"
      by (auto dest: split_list)
    with path have "trace False cfg n (p # zs)" and "distinct (p # zs)"
      by (auto dest: trace_suffix)
    then show ?thesis by (intro exI [of _ "p # zs"]) simp
  next
    case False
    from path have ne: "path \<noteq> []" by (simp add: trace_def)
    then obtain p' rest where pr: "path = p' # rest" by (cases path) auto
    with path step have "trace False cfg n (p # path)"
      by (auto simp: trace_def)
    with False path show ?thesis by (intro exI [of _ "p # path"]) simp
  qed
qed

lemma live_path_iff:
  "(\<exists>path. live_path False cfg n block path) = (\<exists>x. edge cfg block x \<and> live_from cfg n x)"
proof
  assume "\<exists>path. live_path False cfg n block path"
  then show "\<exists>x. edge cfg block x \<and> live_from cfg n x"
    by (auto simp: live_path_def dest: trace_live_from)
next
  assume "\<exists>x. edge cfg block x \<and> live_from cfg n x"
  then obtain x where "edge cfg block x" and "live_from cfg n x" by blast
  then show "\<exists>path. live_path False cfg n block path"
    using live_from_trace [of cfg n x] by (auto simp: live_path_def)
qed

lemma isLiveAtEnd_live_from:
  assumes "wf_cfg cfg" and "block < length (blocks cfg)"
  shows "isLiveAtEnd cfg n block = Inr (\<exists>x. edge cfg block x \<and> live_from cfg n x)"
proof -
  define b where "b = blocks cfg ! block"
  have d: "deref cfg block = Some b"
    using assms(2) by (simp add: deref_def b_def)
  have "b \<in> set (blocks cfg)"
    using assms(2) by (simp add: b_def)
  then have succs: "\<forall>x\<in>set (successors b). x < length (blocks cfg)"
    using assms(1) by (auto simp: wf_cfg_def)
  have ed: "\<And>x. edge cfg block x = (x \<in> set (successors b))"
    by (simp add: edge_def d)
  have loop: "liveness_loop cfg n {} (successors b)
      = Inr (\<exists>x\<in>set (successors b). live_from cfg n x)"
    using liveness_loop_correct [OF assms(1) succs, of "{}" n] by simp
  have "isLiveAtEnd cfg n block = Inr (\<exists>x\<in>set (successors b). live_from cfg n x)"
    using loop d by (cases "successors b") (simp_all add: isLiveAtEnd_def)
  then show ?thesis using ed by auto
qed

lemma isLiveAtEnd_total:
  assumes "wf_cfg cfg" and "block < length (blocks cfg)"
  shows "\<not> isl (isLiveAtEnd cfg n block)"
  using isLiveAtEnd_live_from [OF assms, of n] by simp

text \<open>
  On a well-formed graph \<^verbatim>\<open>isLiveAtEnd(name, block)\<close> returns true if and only if there
  is a forward path that starts at a successor of \<open>block\<close>, visits no block twice and ends
  in a block that reads the name, while no earlier block of the path writes it, for the
  read and write sets without the imports; and it returns false for a block with no
  successors.
\<close>

lemma isLiveAtEnd_iff_live_path:
  assumes "wf_cfg cfg" and "block < length (blocks cfg)"
  shows "isLiveAtEnd cfg n block = Inr (\<exists>path. live_path False cfg n block path)
    \<and> (successors (blocks cfg ! block) = [] \<longrightarrow> isLiveAtEnd cfg n block = Inr False)"
proof -
  have main: "isLiveAtEnd cfg n block = Inr (\<exists>path. live_path False cfg n block path)"
    using isLiveAtEnd_live_from [OF assms, of n] live_path_iff [of cfg n block] by simp
  have "deref cfg block = Some (blocks cfg ! block)"
    using assms(2) by (simp add: deref_def)
  then have "successors (blocks cfg ! block) = [] \<Longrightarrow> isLiveAtEnd cfg n block = Inr False"
    by (simp add: isLiveAtEnd_def)
  with main show ?thesis by blast
qed

lemma cfg_ex_wf: "wf_cfg cfg_ex"
  by (simp add: wf_cfg_def cfg_ex_def block_accesses_def)

lemma cfg_ex_live_x: "isLiveAtEnd cfg_ex ''x'' 0 = Inr True"
  by (simp add: isLiveAtEnd_def deref_def cfg_ex_def classify_def new_visitor_def
      doStore_def doLoad_def)

lemma cfg_chain_wf: "wf_cfg (cfg_chain (Assign [Name ''x'' Store] (OtherExpr [])))"
  by (simp add: wf_cfg_def cfg_chain_def block_accesses_def)

text \<open>
  In the example graph \<open>x\<close> is live at the end of block 0, by the path that is just the
  merge block; \<open>y\<close> is not, and nothing is live at the end of the exit block 2. In the
  chain with \<^verbatim>\<open>x = ...\<close> in block 1, the only forward path from block 0 to the read of
  \<open>x\<close> in block 2 goes through block 1, which writes \<open>x\<close>: \<open>x\<close> is not live at the end of
  block 0, and it is live at the end of block 1.
\<close>

lemma isLiveAtEnd_iff_live_path_examples:
  "isLiveAtEnd cfg_ex ''x'' 0 = Inr True \<and> live_path False cfg_ex ''x'' 0 [2]
   \<and> isLiveAtEnd cfg_ex ''y'' 0 = Inr False \<and> (\<nexists>path. live_path False cfg_ex ''y'' 0 path)
   \<and> isLiveAtEnd cfg_ex ''x'' 2 = Inr False
   \<and> isLiveAtEnd (cfg_chain (Assign [Name ''x'' Store] (OtherExpr []))) ''x'' 0 = Inr False
   \<and> writes False (cfg_chain (Assign [Name ''x'' Store] (OtherExpr []))) ''x'' 1
   \<and> (\<nexists>path. live_path False (cfg_chain (Assign [Name ''x'' Store] (OtherExpr []))) ''x'' 0 path)
   \<and> isLiveAtEnd (cfg_chain (Assign [Name ''x'' Store] (OtherExpr []))) ''x'' 1 = Inr True
   \<and> live_path False (cfg_chain (Assign [Name ''x'' Store] (OtherExpr []))) ''x'' 1 [2]"
proof -
  let ?c = "cfg_chain (Assign [Name ''x'' Store] (OtherExpr []))"
  have len: "0 < length (blocks cfg_ex)" "2 < length (blocks cfg_ex)"
    by (simp_all add: cfg_ex_def)
  have p: "live_path False cfg_ex ''x'' 0 [2]"
    by (simp add: live_path_def trace_def edge_def reads_def writes_def deref_def cfg_ex_def
        block_accesses_def)
  have y: "isLiveAtEnd cfg_ex ''y'' 0 = Inr False"
    by (simp add: isLiveAtEnd_def deref_def cfg_ex_def classify_def new_visitor_def
        doStore_def doLoad_def)
  have e: "successors (blocks cfg_ex ! 2) = []"
    by (simp add: cfg_ex_def)
  from isLiveAtEnd_iff_live_path [OF cfg_ex_wf len(1), of "''y''"] y
  have ny: "\<nexists>path. live_path False cfg_ex ''y'' 0 path" by simp
  from isLiveAtEnd_iff_live_path [OF cfg_ex_wf len(2), of "''x''"] e
  have x2: "isLiveAtEnd cfg_ex ''x'' 2 = Inr False" by blast
  have clen: "0 < length (blocks ?c)"
    by (simp add: cfg_chain_def)
  have c0: "isLiveAtEnd ?c ''x'' 0 = Inr False"
    by (simp add: isLiveAtEnd_def deref_def cfg_chain_def classify_def new_visitor_def
        doStore_def doLoad_def)
  from isLiveAtEnd_iff_live_path [OF cfg_chain_wf clen, of "''x''"] c0
  have nc: "\<nexists>path. live_path False ?c ''x'' 0 path" by simp
  have w: "writes False ?c ''x'' 1"
    by (simp add: writes_def deref_def cfg_chain_def block_accesses_def)
  have c1: "isLiveAtEnd ?c ''x'' 1 = Inr True"
    by (simp add: isLiveAtEnd_def deref_def cfg_chain_def classify_def new_visitor_def
        doStore_def doLoad_def)
  have p1: "live_path False ?c ''x'' 1 [2]"
    by (simp add: live_path_def trace_def edge_def reads_def writes_def deref_def cfg_chain_def
        block_accesses_def)
  from cfg_ex_live_x p y ny x2 c0 w nc c1 p1 show ?thesis by simp
qed

text \<open>
  Claim C2 (where the code departs from it). The read and write sets of a block are
  those of the classification, in which an import is a write of the names it binds. In
  the chain \<^verbatim>\<open>jump\<close>; \<^verbatim>\<open>import os as x\<close>; \<^verbatim>\<open>print x\<close> block 1 writes \<open>x\<close> and does not read
  it, and every forward path from block 0 to the read of \<open>x\<close> in block 2 goes through
  block 1: no path from a successor of block 0 reaches a block that reads \<open>x\<close> before a
  block of the path writes it. \<^verbatim>\<open>isLiveAtEnd("x", block 0)\<close> nevertheless returns true:
  the traversal does not stop at block 1, because \<^verbatim>\<open>LivenessBBVisitor\<close> records nothing
  for an import. With the imports left out of the write sets the path through block 1
  is a live path, in accordance with the returned value.
\<close>

theorem isLiveAtEnd_true_without_live_path:
  "isLiveAtEnd (cfg_chain (Import [Alias ''os'' ''x''])) ''x'' 0 = Inr True
   \<and> writes True (cfg_chain (Import [Alias ''os'' ''x''])) ''x'' 1
   \<and> \<not> reads True (cfg_chain (Import [Alias ''os'' ''x''])) ''x'' 1
   \<and> (\<nexists>path. live_path True (cfg_chain (Import [Alias ''os'' ''x''])) ''x'' 0 path)
   \<and> live_path False (cfg_chain (Import [Alias ''os'' ''x''])) ''x'' 0 [1, 2]"
proof -
  let ?c = "cfg_chain (Import [Alias ''os'' ''x''])"
  have live: "isLiveAtEnd ?c ''x'' 0 = Inr True"
    by (simp add: isLiveAtEnd_def deref_def cfg_chain_def classify_def new_visitor_def
        doStore_def doLoad_def)
  have w: "writes True ?c ''x'' 1"
    by (simp add: writes_def deref_def cfg_chain_def block_accesses_def bound_name_def)
  have r: "\<not> reads True ?c ''x'' 1"
    by (simp add: reads_def deref_def cfg_chain_def block_accesses_def bound_name_def)
  have e: "edge ?c 0 p = (p = 1)" for p
    by (auto simp: edge_def deref_def cfg_chain_def)
  have none: "\<not> live_path True ?c ''x'' 0 path" for path
  proof
    assume lp: "live_path True ?c ''x'' 0 path"
    then have t: "trace True ?c ''x'' path" and h: "hd path = 1"
      by (simp_all add: live_path_def e)
    from t have ne: "path \<noteq> []" by (simp add: trace_def)
    show False
    proof (cases "butlast path = []")
      case True
      with ne h have "last path = 1" by (cases path) (auto split: if_splits)
      with t r show False by (simp add: trace_def)
    next
      case False
      with h have "1 \<in> set (butlast path)" by (cases path) (auto split: if_splits)
      with t w show False by (auto simp: trace_def)
    qed
  qed
  have p: "live_path False ?c ''x'' 0 [1, 2]"
    by (simp add: live_path_def trace_def edge_def reads_def writes_def deref_def cfg_chain_def
        block_accesses_def)
  from live w r none p show ?thesis by blast
qed

text \<open>
  Claim C3 (where the code departs from it). \<^verbatim>\<open>LivenessBBVisitor\<close> has no hook for import
  statements: an import that binds \<open>x\<close> between a block and a later read of \<open>x\<close> does
  not stop the traversal, so \<open>x\<close> is reported live, whereas an assignment to \<open>x\<close> at
  the same place makes it not live. \<^verbatim>\<open>DefinednessVisitor\<close> does treat the import as a
  write: after the visit the bound name (the alias if there is one, the imported name
  otherwise) is \<open>Defined\<close>.
\<close>

theorem import_not_a_store_for_liveness:
  "isLiveAtEnd (cfg_chain (Import [Alias ''x'' [], Alias ''m'' ''z''])) ''x'' 0 = Inr True
   \<and> isLiveAtEnd (cfg_chain (Assign [Name ''x'' Store] (OtherExpr []))) ''x'' 0 = Inr False
   \<and> snd (visit_import [Alias ''x'' [], Alias ''m'' ''z''] Map.empty)
       = [''x'' \<mapsto> Defined, ''z'' \<mapsto> Defined]"
  by (simp add: isLiveAtEnd_def deref_def cfg_chain_def classify_def new_visitor_def
      doStore_def doLoad_def doSet_name_def)

section \<open>The definedness analysis\<close>

text \<open>
  Claim C4 (where the code departs from it). \<^verbatim>\<open>processBB\<close> changes the graph it is given:
  for an import with an alias, \<^verbatim>\<open>visit_import\<close> overwrites the name of the alias node with
  the alias, so the block of \<^verbatim>\<open>import os as o\<close> holds \<^verbatim>\<open>import o as o\<close> afterwards.
\<close>

theorem processBB_overwrites_alias_name:
  "processBB None Map.empty
     \<lparr>idx = 1, body = [Import [Alias ''os'' ''o'']], predecessors = [0], successors = [2]\<rparr>
   = Inr (\<lparr>idx = 1, body = [Import [Alias ''o'' ''o'']], predecessors = [0], successors = [2]\<rparr>,
          [''o'' \<mapsto> Defined])"
  by (simp add: processBB_def doSet_name_def)

section \<open>The phi-requirement analysis\<close>

lemma subscript_fst: "fst (subscript m k d) = (case m k of None \<Rightarrow> d | Some v \<Rightarrow> v)"
  by (simp add: subscript_def split: option.splits)

lemma subscript_snd_lookup:
  "snd (subscript m k d) k' = (if k' = k \<and> m k = None then Some d else m k')"
  by (simp add: subscript_def split: option.splits)

lemma subscript_again: "fst (subscript (snd (subscript m k {})) k' {}) = fst (subscript m k' {})"
  by (simp add: subscript_fst subscript_snd_lookup split: option.splits)

lemma getDefinedNamesAt_names:
  "fst (getDefinedNamesAt block' (snd (getDefinedNamesAt block da)))
     = fst (getDefinedNamesAt block' da)"
  by (simp add: getDefinedNamesAt_def Let_def subscript_again)

lemma getDefinedNamesAt_results:
  "results (snd (getDefinedNamesAt block da)) = results da"
  by (simp add: getDefinedNamesAt_def Let_def)

lemma live_names_Inr:
  "live_names cfg names p = Inr required \<Longrightarrow>
     required = {n \<in> names. isLiveAtEnd cfg n p = Inr True}"
  by (simp add: live_names_def split: if_splits)

lemma phi_loop_result:
  assumes "phi_loop cfg xs phi0 = Inr phi" and "distinct (map fst xs)"
  shows "results (definedness phi) = results (definedness phi0)
    \<and> (\<forall>i. fst (getDefinedNamesAt i (definedness phi)) = fst (getDefinedNamesAt i (definedness phi0)))
    \<and> (\<forall>i. required_phis phi i =
         (case required_phis phi0 i of
            Some s \<Rightarrow> Some s
          | None \<Rightarrow>
              (case map_of xs i of
                 None \<Rightarrow> None
               | Some b \<Rightarrow>
                   if length (predecessors b) < 2 then None
                   else Some {n \<in> fst (getDefinedNamesAt i (definedness phi0)).
                               isLiveAtEnd cfg n (predecessors b ! 0) = Inr True})))"
  using assms
proof (induction xs arbitrary: phi0)
  case Nil
  then show ?case by (simp split: option.splits)
next
  case (Cons x xs)
  obtain j b where x: "x = (j, b)" by (cases x)
  from Cons.prems(2) x have dist: "distinct (map fst xs)" and fresh: "map_of xs j = None"
    by (auto simp: map_of_eq_None_iff)
  show ?case
  proof (cases "length (predecessors b) < 2")
    case True
    with Cons.prems x have "phi_loop cfg xs phi0 = Inr phi" by simp
    from Cons.IH [OF this dist] True x fresh show ?thesis
      by (auto split: option.splits)
  next
    case False
    define r where "r = getDefinedNamesAt j (definedness phi0)"
    from Cons.prems x False obtain required where
      ln: "live_names cfg (fst r) (predecessors b ! 0) = Inr required" and
      rest: "phi_loop cfg xs \<lparr>definedness = snd r,
               required_phis = insert_pair (required_phis phi0) j required\<rparr> = Inr phi"
      by (auto simp: Let_def r_def split: sum.splits if_splits)
    have req: "required = {n \<in> fst r. isLiveAtEnd cfg n (predecessors b ! 0) = Inr True}"
      using ln by (rule live_names_Inr)
    note ih = Cons.IH [OF rest dist]
    have a: "results (definedness phi) = results (definedness phi0)"
      using ih by (simp add: r_def getDefinedNamesAt_results)
    have b: "\<forall>i. fst (getDefinedNamesAt i (definedness phi)) = fst (getDefinedNamesAt i (definedness phi0))"
      using ih by (simp add: r_def getDefinedNamesAt_names)
    have c: "required_phis phi i =
         (case required_phis phi0 i of
            Some s \<Rightarrow> Some s
          | None \<Rightarrow>
              (case map_of (x # xs) i of
                 None \<Rightarrow> None
               | Some b \<Rightarrow>
                   if length (predecessors b) < 2 then None
                   else Some {n \<in> fst (getDefinedNamesAt i (definedness phi0)).
                               isLiveAtEnd cfg n (predecessors b ! 0) = Inr True}))" for i
    proof (cases "i = j")
      case True
      then show ?thesis
        using ih False x req fresh
        by (auto simp: insert_pair_def r_def split: option.splits)
    next
      case False
      then show ?thesis
        using ih x
        by (simp add: insert_pair_def r_def getDefinedNamesAt_names split: option.splits)
    qed
    from a b c show ?thesis by blast
  qed
qed


lemma map_of_enumerate_nth:
  "map_of (enumerate k xs) i = (if k \<le> i \<and> i < k + length xs then Some (xs ! (i - k)) else None)"
proof (induction xs arbitrary: k)
  case Nil
  then show ?case by simp
next
  case (Cons x xs)
  then show ?case by (auto simp: nth_Cons')
qed

lemma new_PhiAnalysis_result:
  assumes "new_PhiAnalysis fixed_point cfg scope = Inr phi"
  shows "results (definedness phi) = fixed_point"
    and "fst (getDefinedNamesAt i (definedness phi))
           = fst (getDefinedNamesAt i (new_DefinednessAnalysis fixed_point scope))"
    and "required_phis phi i =
           (if i < length (blocks cfg) \<and> 2 \<le> length (predecessors (blocks cfg ! i))
            then Some {n \<in> fst (getDefinedNamesAt i (definedness phi)).
                        isLiveAtEnd cfg n (predecessors (blocks cfg ! i) ! 0) = Inr True}
            else None)"
proof -
  let ?phi0 = "\<lparr>definedness = new_DefinednessAnalysis fixed_point scope,
                 required_phis = Map.empty\<rparr>"
  have run: "phi_loop cfg (enumerate 0 (blocks cfg)) ?phi0 = Inr phi"
    using assms by (simp add: new_PhiAnalysis_def)
  have dist: "distinct (map fst (enumerate 0 (blocks cfg)))"
    by simp
  note r = phi_loop_result [OF run dist]
  from r show "results (definedness phi) = fixed_point"
    by (simp add: new_DefinednessAnalysis_def)
  from r show names: "fst (getDefinedNamesAt i (definedness phi))
           = fst (getDefinedNamesAt i (new_DefinednessAnalysis fixed_point scope))"
    by simp
  from r have "required_phis phi i =
      (case map_of (enumerate 0 (blocks cfg)) i of
         None \<Rightarrow> None
       | Some b \<Rightarrow>
           if length (predecessors b) < 2 then None
           else Some {n \<in> fst (getDefinedNamesAt i (new_DefinednessAnalysis fixed_point scope)).
                       isLiveAtEnd cfg n (predecessors b ! 0) = Inr True})"
    by (simp cong: option.case_cong if_cong)
  then show "required_phis phi i =
           (if i < length (blocks cfg) \<and> 2 \<le> length (predecessors (blocks cfg ! i))
            then Some {n \<in> fst (getDefinedNamesAt i (definedness phi)).
                        isLiveAtEnd cfg n (predecessors (blocks cfg ! i) ! 0) = Inr True}
            else None)"
    using names by (auto simp: map_of_enumerate_nth)
qed

lemma getDefinedNamesAt_new:
  "fst (getDefinedNamesAt block (new_DefinednessAnalysis fixed_point scope))
     = (case fixed_point block of
          None \<Rightarrow> {}
        | Some m \<Rightarrow> {n \<in> dom m. \<not> refersToGlobal scope n})"
  by (simp add: getDefinedNamesAt_def new_DefinednessAnalysis_def Let_def subscript_fst
      split: option.splits)

lemma isRequired_fst:
  "fst (isRequired n block phi) = (case required_phis phi block of None \<Rightarrow> False | Some s \<Rightarrow> n \<in> s)"
  by (simp add: isRequired_def Let_def subscript_fst split: option.splits)

lemma phi_loop_total:
  assumes "wf_cfg cfg" and "\<forall>x\<in>set xs. snd x \<in> set (blocks cfg)"
  shows "\<exists>phi. phi_loop cfg xs phi0 = Inr phi"
  using assms(2)
proof (induction xs arbitrary: phi0)
  case Nil
  then show ?case by simp
next
  case (Cons x xs)
  obtain j b where x: "x = (j, b)" by (cases x)
  show ?case
  proof (cases "length (predecessors b) < 2")
    case True
    with Cons x show ?thesis by simp
  next
    case False
    then have pos: "0 < length (predecessors b)" by linarith
    from pos have "predecessors b ! 0 \<in> set (predecessors b)" by (rule nth_mem)
    moreover have "b \<in> set (blocks cfg)" using Cons.prems x by simp
    ultimately have "predecessors b ! 0 < length (blocks cfg)"
      using assms(1) by (auto simp: wf_cfg_def)
    then have "\<And>n. \<not> isl (isLiveAtEnd cfg n (predecessors b ! 0))"
      using assms(1) by (rule isLiveAtEnd_total [rotated])
    then have "\<And>names. \<exists>required. live_names cfg names (predecessors b ! 0) = Inr required"
      by (simp add: live_names_def)
    then obtain required where
      "live_names cfg (fst (getDefinedNamesAt j (definedness phi0))) (predecessors b ! 0)
         = Inr required"
      by blast
    with Cons x False pos show ?thesis by (simp add: Let_def)
  qed
qed

lemma new_PhiAnalysis_total:
  assumes "wf_cfg cfg"
  shows "\<exists>phi. new_PhiAnalysis fixed_point cfg scope = Inr phi"
  unfolding new_PhiAnalysis_def
  by (rule phi_loop_total [OF assms]) (auto simp: in_set_enumerate_eq)

lemma cfg_ex_live_y: "isLiveAtEnd cfg_ex ''y'' 0 = Inr False"
  by (simp add: isLiveAtEnd_def deref_def cfg_ex_def classify_def new_visitor_def
      doStore_def doLoad_def)

lemma cfg_ex_pred: "predecessors (blocks cfg_ex ! 2) ! 0 = 0"
  and cfg_ex_preds: "length (predecessors (blocks cfg_ex ! 2)) = 2"
    "length (predecessors (blocks cfg_ex ! Suc 0)) = 1"
  and cfg_ex_length: "length (blocks cfg_ex) = 3"
  by (simp_all add: cfg_ex_def)

lemma cfg_ex_names:
  assumes "new_PhiAnalysis fp_ex cfg_ex scope_ex = Inr phi"
  shows "fst (getDefinedNamesAt 2 (definedness phi)) = {''x'', ''y''}"
proof -
  have "fst (getDefinedNamesAt 2 (definedness phi))
      = fst (getDefinedNamesAt 2 (new_DefinednessAnalysis fp_ex scope_ex))"
    by (rule new_PhiAnalysis_result(2) [OF assms])
  also have "\<dots> = {n \<in> {''x'', ''g'', ''y''}. n \<noteq> ''g''}"
    by (simp add: getDefinedNamesAt_new fp_ex_def scope_ex_def insert_commute)
  also have "\<dots> = {''x'', ''y''}" by auto
  finally show ?thesis .
qed

lemma cfg_ex_phis:
  assumes "new_PhiAnalysis fp_ex cfg_ex scope_ex = Inr phi"
  shows "required_phis phi 2 = Some {''x''}"
proof -
  have "required_phis phi 2 = Some {n \<in> {''x'', ''y''}. isLiveAtEnd cfg_ex n 0 = Inr True}"
    using new_PhiAnalysis_result(3) [OF assms, of 2] cfg_ex_names [OF assms]
    by (simp add: cfg_ex_pred cfg_ex_preds cfg_ex_length)
  moreover have "{n \<in> {''x'', ''y''}. isLiveAtEnd cfg_ex n 0 = Inr True} = {''x''}"
    using cfg_ex_live_x cfg_ex_live_y by auto
  ultimately show ?thesis by simp
qed

text \<open>
  Claim C5. In a constructed \<^verbatim>\<open>PhiAnalysis\<close>, for a block of the graph with two or more
  predecessors a name is in the block's required-phi set if and only if it is in the
  block's set of defined names and \<^verbatim>\<open>isLiveAtEnd\<close> holds for it at the block's first
  predecessor; a block with fewer than two predecessors has no entry in
  \<^verbatim>\<open>required_phis\<close>. The set of defined names of a block is the key set of the block's
  map in the fixed-point table without the names that the scope resolver reports as
  global.
\<close>

theorem required_phi_iff:
  assumes "new_PhiAnalysis fixed_point cfg scope = Inr phi"
    and "block < length (blocks cfg)"
  shows "(2 \<le> length (predecessors (blocks cfg ! block)) \<longrightarrow>
           fst (isRequired n block phi) =
             (n \<in> fst (getDefinedNamesAt block (definedness phi))
              \<and> isLiveAtEnd cfg n (predecessors (blocks cfg ! block) ! 0) = Inr True))
    \<and> (length (predecessors (blocks cfg ! block)) < 2 \<longrightarrow>
           required_phis phi block = None \<and> \<not> fst (isRequired n block phi))
    \<and> fst (getDefinedNamesAt block (definedness phi))
         = (case fixed_point block of
              None \<Rightarrow> {}
            | Some m \<Rightarrow> {n \<in> dom m. \<not> refersToGlobal scope n})"
  using new_PhiAnalysis_result(2,3) [OF assms(1), of block] assms(2)
  by (auto simp: isRequired_fst getDefinedNamesAt_new)

text \<open>
  In the example graph the merge block 2 requires a phi for \<open>x\<close>, which is defined there
  and live at the end of block 0, and none for \<open>y\<close>, which is defined there but not live;
  block 1 has one predecessor and no entry.
\<close>

theorem required_phi_iff_witness:
  "\<exists>phi. new_PhiAnalysis fp_ex cfg_ex scope_ex = Inr phi
     \<and> fst (isRequired ''x'' 2 phi) \<and> \<not> fst (isRequired ''y'' 2 phi)
     \<and> required_phis phi 1 = None"
proof -
  obtain phi where run: "new_PhiAnalysis fp_ex cfg_ex scope_ex = Inr phi"
    using new_PhiAnalysis_total [OF cfg_ex_wf] by blast
  have names: "fst (getDefinedNamesAt 2 (definedness phi)) = {''x'', ''y''}"
    by (rule cfg_ex_names [OF run])
  have "fst (isRequired ''x'' 2 phi)"
    using required_phi_iff [OF run, of 2 "''x''"] names cfg_ex_live_x
    by (simp add: cfg_ex_pred cfg_ex_preds cfg_ex_length)
  moreover have "\<not> fst (isRequired ''y'' 2 phi)"
    using required_phi_iff [OF run, of 2 "''y''"] names cfg_ex_live_y
    by (simp add: cfg_ex_pred cfg_ex_preds cfg_ex_length)
  moreover have "required_phis phi 1 = None"
    using required_phi_iff [OF run, of 1 "''x''"]
    by (simp add: cfg_ex_preds cfg_ex_length)
  ultimately show ?thesis using run by blast
qed

text \<open>
  Claim C9. A name that the scope resolver reports as global is in no result of
  \<^verbatim>\<open>getDefinedNamesAt\<close> or \<^verbatim>\<open>getAllDefinedAt\<close> and \<^verbatim>\<open>isRequired\<close> is false for it at every
  block, whatever the fixed-point table records for the name.
\<close>

theorem globals_excluded:
  assumes "refersToGlobal scope n"
  shows "n \<notin> fst (getDefinedNamesAt block (new_DefinednessAnalysis fixed_point scope))
    \<and> (new_PhiAnalysis fixed_point cfg scope = Inr phi \<longrightarrow>
         n \<notin> fst (getDefinedNamesAt block (definedness phi))
         \<and> n \<notin> fst (getAllDefinedAt block phi)
         \<and> \<not> fst (isRequired n block phi))"
proof -
  have a: "n \<notin> fst (getDefinedNamesAt block (new_DefinednessAnalysis fixed_point scope))"
    using assms by (simp add: getDefinedNamesAt_new split: option.splits)
  have "n \<notin> fst (getDefinedNamesAt block (definedness phi)) \<and> n \<notin> fst (getAllDefinedAt block phi)
         \<and> \<not> fst (isRequired n block phi)"
    if run: "new_PhiAnalysis fixed_point cfg scope = Inr phi"
  proof -
    have b: "n \<notin> fst (getDefinedNamesAt block (definedness phi))"
      using new_PhiAnalysis_result(2) [OF run, of block] a by simp
    then have c: "n \<notin> fst (getAllDefinedAt block phi)"
      by (simp add: getAllDefinedAt_def Let_def)
    have "\<not> fst (isRequired n block phi)"
      using new_PhiAnalysis_result(3) [OF run, of block] b
      by (auto simp: isRequired_fst)
    with b c show ?thesis by simp
  qed
  with a show ?thesis by blast
qed

text \<open>
  In the example graph \<open>g\<close> is assigned in block 0, recorded as \<open>Defined\<close> at the merge
  block and live at the end of block 0, and the scope resolver reports it as global: it
  is neither a defined name nor a required phi of the merge block.
\<close>

theorem globals_excluded_witness:
  "refersToGlobal scope_ex ''g''
   \<and> fst (isDefinedAt ''g'' 2 (new_DefinednessAnalysis fp_ex scope_ex)) = Defined
   \<and> isLiveAtEnd cfg_ex ''g'' 0 = Inr True
   \<and> ''g'' \<notin> fst (getDefinedNamesAt 2 (new_DefinednessAnalysis fp_ex scope_ex))
   \<and> (\<exists>phi. new_PhiAnalysis fp_ex cfg_ex scope_ex = Inr phi
         \<and> ''g'' \<notin> fst (getAllDefinedAt 2 phi) \<and> \<not> fst (isRequired ''g'' 2 phi))"
proof -
  have g: "refersToGlobal scope_ex ''g''"
    by (simp add: scope_ex_def)
  have d: "fst (isDefinedAt ''g'' 2 (new_DefinednessAnalysis fp_ex scope_ex)) = Defined"
    by (simp add: isDefinedAt_def new_DefinednessAnalysis_def fp_ex_def subscript_def)
  have l: "isLiveAtEnd cfg_ex ''g'' 0 = Inr True"
    by (simp add: isLiveAtEnd_def deref_def cfg_ex_def classify_def new_visitor_def
        doStore_def doLoad_def)
  obtain phi where run: "new_PhiAnalysis fp_ex cfg_ex scope_ex = Inr phi"
    using new_PhiAnalysis_total [OF cfg_ex_wf] by blast
  from globals_excluded [OF g, of 2 fp_ex cfg_ex phi] run g d l show ?thesis by blast
qed

text \<open>
  Claim C10. For a block with two or more successors \<^verbatim>\<open>getAllRequiredAfter\<close> returns the
  required-phi set of the block's first successor, while \<^verbatim>\<open>isRequiredAfter\<close> returns false
  for every name; for a block without successors \<^verbatim>\<open>getAllRequiredAfter\<close> returns the empty
  set.
\<close>

theorem getAllRequiredAfter_first_successor:
  assumes "deref cfg block = Some b"
  shows "(2 \<le> length (successors b) \<longrightarrow>
           (\<exists>phi'. getAllRequiredAfter cfg block phi
                     = Inr ({n. fst (isRequired n (successors b ! 0) phi)}, phi'))
           \<and> isRequiredAfter cfg n block phi = Inr (False, phi))
    \<and> (length (successors b) = 0 \<longrightarrow> getAllRequiredAfter cfg block phi = Inr ({}, phi))"
  using assms
  by (auto simp: getAllRequiredAfter_def isRequiredAfter_def Let_def isRequired_fst subscript_fst
      split: option.splits)

text \<open>
  In the example graph block 0 has the two successors 2 and 1: \<^verbatim>\<open>getAllRequiredAfter\<close>
  returns the non-empty set \<open>{x}\<close> for it and \<^verbatim>\<open>isRequiredAfter\<close> is false for \<open>x\<close>; for
  the exit block 2 the set is empty.
\<close>

theorem getAllRequiredAfter_first_successor_witness:
  "\<exists>phi. new_PhiAnalysis fp_ex cfg_ex scope_ex = Inr phi
     \<and> length (successors (blocks cfg_ex ! 0)) = 2
     \<and> (\<exists>phi'. getAllRequiredAfter cfg_ex 0 phi = Inr ({''x''}, phi'))
     \<and> isRequiredAfter cfg_ex ''x'' 0 phi = Inr (False, phi)
     \<and> getAllRequiredAfter cfg_ex 2 phi = Inr ({}, phi)"
proof -
  obtain phi where run: "new_PhiAnalysis fp_ex cfg_ex scope_ex = Inr phi"
    using new_PhiAnalysis_total [OF cfg_ex_wf] by blast
  have d0: "deref cfg_ex 0 = Some (blocks cfg_ex ! 0)"
    and d2: "deref cfg_ex 2 = Some (blocks cfg_ex ! 2)"
    by (simp_all add: deref_def cfg_ex_length)
  have s0: "length (successors (blocks cfg_ex ! 0)) = 2" "successors (blocks cfg_ex ! 0) ! 0 = 2"
    and s2: "length (successors (blocks cfg_ex ! 2)) = 0"
    by (simp_all add: cfg_ex_def)
  have set: "{n. fst (isRequired n 2 phi)} = {''x''}"
    using cfg_ex_phis [OF run] by (simp add: isRequired_fst)
  from getAllRequiredAfter_first_successor [OF d0, of phi "''x''"] s0 set
  have "(\<exists>phi'. getAllRequiredAfter cfg_ex 0 phi = Inr ({''x''}, phi'))
      \<and> isRequiredAfter cfg_ex ''x'' 0 phi = Inr (False, phi)"
    by simp
  moreover from getAllRequiredAfter_first_successor [OF d2, of phi "''x''"] s2
  have "getAllRequiredAfter cfg_ex 2 phi = Inr ({}, phi)"
    by simp
  ultimately show ?thesis using run s0 by blast
qed

text \<open>
  Claim C8. \<^verbatim>\<open>isPotentiallyUndefinedAfter(name, block)\<close> stops at its first assertion when
  the block has no successor and at its second when \<^verbatim>\<open>isDefinedAt\<close> gives \<open>Undefined\<close> for
  the name at the block's first successor. Otherwise it returns whether that level is
  \<open>PotentiallyDefined\<close> and leaves the analysis as it was.
\<close>

theorem isPotentiallyUndefinedAfter_cases:
  assumes "deref cfg block = Some b"
  shows "(length (successors b) = 0 \<longrightarrow>
           isPotentiallyUndefinedAfter cfg n block phi = Inl AssertNoSuccessor)
    \<and> (0 < length (successors b) \<longrightarrow>
         fst (isDefinedAt n (successors b ! 0) (definedness phi)) = Undefined \<longrightarrow>
           isPotentiallyUndefinedAfter cfg n block phi = Inl AssertUndefinedLevel)
    \<and> (0 < length (successors b) \<longrightarrow>
         fst (isDefinedAt n (successors b ! 0) (definedness phi)) \<noteq> Undefined \<longrightarrow>
           isPotentiallyUndefinedAfter cfg n block phi
             = Inr (fst (isDefinedAt n (successors b ! 0) (definedness phi)) = PotentiallyDefined,
                    phi))"
  using assms
  by (auto simp: isPotentiallyUndefinedAfter_def isDefinedAt_def Let_def subscript_def
      split: option.splits)

text \<open>
  In the example graph, after block 0 (first successor: the merge block) \<open>y\<close> is
  potentially undefined and \<open>x\<close> is not; the query fails for the name \<open>q\<close>, which the
  table does not record, and for the exit block 2.
\<close>

theorem isPotentiallyUndefinedAfter_cases_witness:
  "\<exists>phi. new_PhiAnalysis fp_ex cfg_ex scope_ex = Inr phi
     \<and> isPotentiallyUndefinedAfter cfg_ex ''y'' 0 phi = Inr (True, phi)
     \<and> isPotentiallyUndefinedAfter cfg_ex ''x'' 0 phi = Inr (False, phi)
     \<and> isPotentiallyUndefinedAfter cfg_ex ''q'' 0 phi = Inl AssertUndefinedLevel
     \<and> isPotentiallyUndefinedAfter cfg_ex ''x'' 2 phi = Inl AssertNoSuccessor"
proof -
  obtain phi where run: "new_PhiAnalysis fp_ex cfg_ex scope_ex = Inr phi"
    using new_PhiAnalysis_total [OF cfg_ex_wf] by blast
  have res: "results (definedness phi) = fp_ex"
    by (rule new_PhiAnalysis_result(1) [OF run])
  have d0: "deref cfg_ex 0 = Some (blocks cfg_ex ! 0)"
    and d2: "deref cfg_ex 2 = Some (blocks cfg_ex ! 2)"
    by (simp_all add: deref_def cfg_ex_length)
  have s0: "length (successors (blocks cfg_ex ! 0)) = 2" "successors (blocks cfg_ex ! 0) ! 0 = 2"
    and s2: "length (successors (blocks cfg_ex ! 2)) = 0"
    by (simp_all add: cfg_ex_def)
  have lev: "fst (isDefinedAt ''y'' 2 (definedness phi)) = PotentiallyDefined"
    "fst (isDefinedAt ''x'' 2 (definedness phi)) = Defined"
    "fst (isDefinedAt ''q'' 2 (definedness phi)) = Undefined"
    by (simp_all add: isDefinedAt_def res fp_ex_def subscript_def)
  from isPotentiallyUndefinedAfter_cases [OF d0, of "''y''" phi] s0 lev
  have "isPotentiallyUndefinedAfter cfg_ex ''y'' 0 phi = Inr (True, phi)" by simp
  moreover from isPotentiallyUndefinedAfter_cases [OF d0, of "''x''" phi] s0 lev
  have "isPotentiallyUndefinedAfter cfg_ex ''x'' 0 phi = Inr (False, phi)" by simp
  moreover from isPotentiallyUndefinedAfter_cases [OF d0, of "''q''" phi] s0 lev
  have "isPotentiallyUndefinedAfter cfg_ex ''q'' 0 phi = Inl AssertUndefinedLevel" by simp
  moreover from isPotentiallyUndefinedAfter_cases [OF d2, of "''x''" phi] s2
  have "isPotentiallyUndefinedAfter cfg_ex ''x'' 2 phi = Inl AssertNoSuccessor" by simp
  ultimately show ?thesis using run by blast
qed

section \<open>The fixed point of the definedness analysis\<close>

lemma define_all_empty: "define_all {} st = st"
  by (simp add: define_all_def)

lemma define_all_single: "define_all {n} st = doSet_name n st"
  by (auto simp: define_all_def doSet_name_def)

lemma define_all_twice: "define_all B (define_all A st) = define_all (A \<union> B) st"
  by (auto simp: define_all_def)

lemma doSet_eq:
  "doSet t st = (if target_ok t then Inr (define_all (target_names t) st) else Inl AssertUnknownType)"
  and doSet_elts_eq:
  "doSet_elts ts st =
     (if targets_ok ts then Inr (define_all (targets_names ts) st) else Inl AssertUnknownType)"
proof (induction t st and ts st rule: doSet_doSet_elts.induct)
  case (7 t ts state)
  then show ?case by (simp add: define_all_twice)
qed (simp_all add: define_all_empty define_all_single)

lemma bound_name_rebind: "bound_name (rebind a) = bound_name a"
  by (simp add: bound_name_def rebind_def)

lemma visit_import_eq:
  "visit_import als st = (map rebind als, define_all (bound_name ` set als) st)"
proof (induction als arbitrary: st)
  case Nil
  then show ?case by (simp add: define_all_empty)
next
  case (Cons a als)
  show ?case
    using Cons
    by (auto simp: Let_def rebind_def bound_name_def define_all_single [symmetric]
        define_all_twice)
qed

lemma definedness_visit_eq:
  "definedness_visit s st =
     (if stmt_ok s then Inr (rebind_stmt s, define_all (stmt_names s) st)
      else Inl AssertUnknownType)"
  by (cases s)
    (simp_all add: define_all_empty define_all_single visit_import_eq doSet_elts_eq Let_def)

lemma definedness_visit_body_eq:
  "definedness_visit_body ss st =
     (if \<forall>s\<in>set ss. stmt_ok s
      then Inr (map rebind_stmt ss, define_all (\<Union>s\<in>set ss. stmt_names s) st)
      else Inl AssertUnknownType)"
proof (induction ss arbitrary: st)
  case Nil
  then show ?case by (simp add: define_all_empty)
next
  case (Cons s ss)
  then show ?case
    by (simp add: definedness_visit_eq define_all_twice)
qed

lemma visit_arguments_eq:
  "visit_arguments node st =
     (if args_ok node then Inr (define_all (args_names node) st) else Inl AssertUnknownType)"
  by (cases "kwarg node")
    (auto simp: visit_arguments_def args_ok_def args_names_def doSet_eq doSet_elts_eq
      define_all_twice define_all_single [symmetric] Un_assoc)

lemma processBB_eq:
  "processBB arguments st b =
     (if block_ok arguments b
      then Inr (rebind_block b, define_all (block_names arguments b) st)
      else Inl AssertUnknownType)"
  by (auto simp: processBB_def definedness_visit_body_eq visit_arguments_eq block_ok_def
      block_names_def rebind_block_def define_all_twice define_all_empty)

lemma stmt_names_rebind: "stmt_names (rebind_stmt s) = stmt_names s"
  by (cases s) (auto simp: bound_name_rebind image_image)

lemma stmt_ok_rebind: "stmt_ok (rebind_stmt s) = stmt_ok s"
  by (cases s) auto

lemma rebind_block_simps:
  "idx (rebind_block b) = idx b"
  "successors (rebind_block b) = successors b"
  "predecessors (rebind_block b) = predecessors b"
  "block_names arguments (rebind_block b) = block_names arguments b"
  "block_ok arguments (rebind_block b) = block_ok arguments b"
  by (simp_all add: rebind_block_def block_names_def block_ok_def stmt_names_rebind stmt_ok_rebind)

lemma le_map_refl: "le_map m m"
  by (simp add: le_map_def le_val_def)

lemma le_map_trans: "le_map a b \<Longrightarrow> le_map b c \<Longrightarrow> le_map a c"
  unfolding le_map_def le_val_def by metis

lemma le_map_antisym: "le_map a b \<Longrightarrow> le_map b a \<Longrightarrow> a = b"
  unfolding le_map_def le_val_def by (rule ext) metis

lemma le_states_refl: "le_states t t"
  by (auto simp: le_states_def le_map_refl)

lemma le_states_trans: "le_states a b \<Longrightarrow> le_states b c \<Longrightarrow> le_states a c"
  unfolding le_states_def by (meson le_map_trans)

lemma le_states_antisym:
  assumes "le_states a b" and "le_states b a"
  shows "a = b"
proof (rule ext)
  fix x
  show "a x = b x"
  proof (cases "a x")
    case None
    then show ?thesis using assms(2) unfolding le_states_def by (cases "b x") fastforce+
  next
    case (Some m)
    then obtain m' where "b x = Some m'" "le_map m m'"
      using assms(1) by (auto simp: le_states_def)
    moreover from this assms(2) Some have "le_map m' m"
      unfolding le_states_def by fastforce
    ultimately show ?thesis using Some by (simp add: le_map_antisym)
  qed
qed

lemma le_map_join: "le_map m (join_map e m)" "le_map e (join_map e m)"
  by (auto simp: le_map_def le_val_def join_map_def)

lemma join_map_least: "le_map e m \<Longrightarrow> join_map e m = m"
  by (rule ext) (auto simp: le_map_def le_val_def join_map_def)

lemma join_value_proper:
  assumes "v \<noteq> Some Undefined" and "w \<noteq> Some Undefined"
  shows "join_value v w = Inr (if v = w then w else Some PotentiallyDefined)"
proof (cases v)
  case None
  then show ?thesis using assms by (cases w) (auto simp: mergeBlank_def)
next
  case v: (Some a)
  show ?thesis
  proof (cases w)
    case None
    then show ?thesis using v assms by (auto simp: mergeBlank_def)
  next
    case (Some b)
    then show ?thesis
      using v assms by (cases a; cases b) (simp_all add: merge_def)
  qed
qed

lemma feed_proper:
  assumes "proper e" and "proper m"
  shows "feed e m = Inr (join_map e m)"
proof -
  have jv: "\<And>n. join_value (e n) (m n) = Inr (join_map e m n)"
    using assms by (simp add: join_value_proper proper_def join_map_def)
  then show ?thesis
    by (auto simp: feed_def)
qed

lemma proper_join_map: "proper e \<Longrightarrow> proper m \<Longrightarrow> proper (join_map e m)"
  by (simp add: proper_def join_map_def)

lemma changed_iff: "(\<exists>n\<in>dom e \<union> dom m. join_map e m n \<noteq> m n) = (join_map e m \<noteq> m)"
proof
  assume "\<exists>n\<in>dom e \<union> dom m. join_map e m n \<noteq> m n"
  then show "join_map e m \<noteq> m" by auto
next
  assume "join_map e m \<noteq> m"
  then obtain n where n: "join_map e m n \<noteq> m n" by (auto simp: fun_eq_iff)
  then have "e n \<noteq> m n" by (auto simp: join_map_def)
  then have "n \<in> dom e \<union> dom m" by (cases "e n"; cases "m n") auto
  with n show "\<exists>n\<in>dom e \<union> dom m. join_map e m n \<noteq> m n" by blast
qed

text \<open>The loop over the successors, for proper maps.\<close>

lemma feed_successors_step:
  assumes "proper e" and "all_proper t"
  shows "feed_successors e (s # ss) (t, q) =
     (case t s of
        None \<Rightarrow> feed_successors e ss (t(s \<mapsto> e), q @ [s])
      | Some m \<Rightarrow> feed_successors e ss
          (t(s \<mapsto> join_map e m), if join_map e m \<noteq> m then q @ [s] else q))"
  using assms
  by (auto simp: all_proper_def feed_proper changed_iff split: option.splits)

lemma all_proper_upd: "all_proper t \<Longrightarrow> proper m \<Longrightarrow> all_proper (t(s \<mapsto> m))"
  by (auto simp: all_proper_def)

lemma feed_successors_result:
  assumes "proper e" and "all_proper t"
  shows "\<exists>t' pushed. feed_successors e ss (t, q) = Inr (t', q @ pushed)
     \<and> all_proper t' \<and> le_states t t'
     \<and> set pushed \<subseteq> set ss
     \<and> (\<forall>b. t' b \<noteq> t b \<longrightarrow> b \<in> set pushed)
     \<and> (pushed = []) = (t' = t)
     \<and> (\<forall>s\<in>set ss. \<exists>m'. t' s = Some m' \<and> le_map e m')
     \<and> dom t' = dom t \<union> set ss"
  using assms(2)
proof (induction ss arbitrary: t q)
  case Nil
  then show ?case by (simp add: le_states_refl)
next
  case (Cons s ss)
  define t1 where "t1 = (case t s of None \<Rightarrow> t(s \<mapsto> e) | Some m \<Rightarrow> t(s \<mapsto> join_map e m))"
  define q1 where "q1 = (case t s of None \<Rightarrow> [s]
     | Some m \<Rightarrow> if join_map e m \<noteq> m then [s] else [])"
  have step: "feed_successors e (s # ss) (t, q) = feed_successors e ss (t1, q @ q1)"
    using feed_successors_step [OF assms(1) Cons.prems, of s ss q]
    by (simp add: t1_def q1_def split: option.splits)
  have p1: "all_proper t1"
    using Cons.prems assms(1)
    by (auto simp: t1_def all_proper_def proper_join_map split: option.splits)
  have le1: "le_states t t1"
    by (auto simp: t1_def le_states_def le_map_refl le_map_join split: option.splits)
  have ch1: "\<forall>b. t1 b \<noteq> t b \<longrightarrow> b \<in> set q1"
    by (auto simp: t1_def q1_def split: option.splits)
  have same1: "(q1 = []) = (t1 = t)"
    by (auto simp: t1_def q1_def fun_upd_idem_iff split: option.splits)
  have s1: "\<exists>m'. t1 s = Some m' \<and> le_map e m'"
    by (auto simp: t1_def le_map_refl le_map_join split: option.splits)
  have d1: "dom t1 = insert s (dom t)"
    by (auto simp: t1_def split: option.splits)
  have q1s: "set q1 \<subseteq> {s}"
    by (auto simp: q1_def split: option.splits)
  from Cons.IH [OF p1, of "q @ q1"] obtain t' pushed where
    r: "feed_successors e ss (t1, q @ q1) = Inr (t', (q @ q1) @ pushed)"
    and p: "all_proper t'" and le: "le_states t1 t'"
    and sub: "set pushed \<subseteq> set ss"
    and ch: "\<forall>b. t' b \<noteq> t1 b \<longrightarrow> b \<in> set pushed"
    and same: "(pushed = []) = (t' = t1)"
    and fed: "\<forall>s\<in>set ss. \<exists>m'. t' s = Some m' \<and> le_map e m'"
    and d: "dom t' = dom t1 \<union> set ss"
    by blast
  have a: "feed_successors e (s # ss) (t, q) = Inr (t', q @ (q1 @ pushed))"
    using step r by simp
  have b: "le_states t t'"
    using le1 le by (rule le_states_trans)
  have c: "set (q1 @ pushed) \<subseteq> set (s # ss)"
    using q1s sub by auto
  have d': "\<forall>b. t' b \<noteq> t b \<longrightarrow> b \<in> set (q1 @ pushed)"
    using ch ch1 by (metis Un_iff set_append)
  have e': "(q1 @ pushed = []) = (t' = t)"
  proof
    assume "q1 @ pushed = []"
    then show "t' = t" using same same1 by auto
  next
    assume eq: "t' = t"
    with le have "le_states t1 t" by simp
    with le1 have "t1 = t" by (simp add: le_states_antisym)
    with eq same same1 show "q1 @ pushed = []" by simp
  qed
  have f: "\<forall>x\<in>set (s # ss). \<exists>m'. t' x = Some m' \<and> le_map e m'"
  proof
    fix x assume "x \<in> set (s # ss)"
    then consider "x = s" | "x \<in> set ss" by auto
    then show "\<exists>m'. t' x = Some m' \<and> le_map e m'"
    proof cases
      case 1
      from s1 obtain m1 where "t1 s = Some m1" "le_map e m1" by blast
      moreover from this le obtain m' where "t' s = Some m'" "le_map m1 m'"
        by (auto simp: le_states_def)
      ultimately show ?thesis using 1 by (auto intro: le_map_trans)
    next
      case 2
      with fed show ?thesis by blast
    qed
  qed
  have g: "dom t' = dom t \<union> set (s # ss)"
    using d d1 by auto
  from a p b c d' e' f g show ?case by blast
qed

lemma written_on_Cons:
  assumes "p < length (blocks cfg)" and "block_ok arguments (blocks cfg ! p)"
  shows "written_on arguments cfg n (p # path)
     = (n \<in> block_names arguments (blocks cfg ! p) \<or> written_on arguments cfg n path)"
  using assms by (simp add: written_on_def deref_def)

lemma written_on_Nil: "\<not> written_on arguments cfg n []"
  by (simp add: written_on_def)

lemma wit_simps:
  "wit arguments cfg b n None
     = (\<exists>path. entry_path cfg path b \<and> \<not> written_on arguments cfg n path)"
  "wit arguments cfg b n (Some Defined)
     = (\<exists>path. entry_path cfg path b \<and> written_on arguments cfg n path)"
  "wit arguments cfg b n (Some PotentiallyDefined)
     = ((\<exists>path. entry_path cfg path b \<and> written_on arguments cfg n path)
        \<and> (\<exists>path. entry_path cfg path b \<and> \<not> written_on arguments cfg n path))"
  "wit arguments cfg b n (Some Undefined) = False"
  by (simp_all add: wit_def)

lemma wit_cases:
  assumes "wit arguments cfg b n v"
  obtains (absent) "v = None"
      "\<exists>path. entry_path cfg path b \<and> \<not> written_on arguments cfg n path"
    | (defined) "v = Some Defined"
      "\<exists>path. entry_path cfg path b \<and> written_on arguments cfg n path"
    | (potentially) "v = Some PotentiallyDefined"
      "\<exists>path. entry_path cfg path b \<and> written_on arguments cfg n path"
      "\<exists>path. entry_path cfg path b \<and> \<not> written_on arguments cfg n path"
proof (cases v)
  case None
  with assms absent show ?thesis by (simp add: wit_simps)
next
  case (Some l)
  with assms defined potentially show ?thesis by (cases l) (simp_all add: wit_simps)
qed

lemma witnessed_proper: "witnessed arguments cfg b m \<Longrightarrow> proper m"
  unfolding witnessed_def proper_def by (metis wit_simps(4))

lemma witnessed_reachable:
  assumes "witnessed arguments cfg b m"
  shows "\<exists>path. entry_path cfg path b"
proof -
  from assms have "wit arguments cfg b [] (m [])" by (simp add: witnessed_def)
  then show ?thesis by (cases rule: wit_cases) blast+
qed

lemma wit_extend:
  assumes "p < length (blocks cfg)" and "block_ok arguments (blocks cfg ! p)"
    and "s \<in> set (successors (blocks cfg ! p))"
    and "n \<notin> block_names arguments (blocks cfg ! p)"
    and "wit arguments cfg p n v"
  shows "wit arguments cfg s n v"
proof -
  have ed: "edge cfg p s"
    using assms(1,3) by (simp add: edge_def deref_def)
  have ext1: "entry_path cfg (p # path) s" if "entry_path cfg path p" for path
    using that ed by simp
  have ext2: "written_on arguments cfg n (p # path) = written_on arguments cfg n path" for path
    using assms(4) written_on_Cons [OF assms(1,2)] by simp
  from assms(5) show ?thesis
  proof (cases rule: wit_cases)
    case absent
    then show ?thesis by (simp only: wit_simps) (metis ext1 ext2)
  next
    case defined
    then show ?thesis by (simp only: wit_simps) (metis ext1 ext2)
  next
    case potentially
    then show ?thesis by (simp only: wit_simps) (metis ext1 ext2)
  qed
qed

lemma wit_assigned:
  assumes "p < length (blocks cfg)" and "block_ok arguments (blocks cfg ! p)"
    and "s \<in> set (successors (blocks cfg ! p))"
    and "n \<in> block_names arguments (blocks cfg ! p)"
    and "entry_path cfg path p"
  shows "wit arguments cfg s n (Some Defined)"
proof -
  have "edge cfg p s"
    using assms(1,3) by (simp add: edge_def deref_def)
  with assms(5) have "entry_path cfg (p # path) s" by simp
  moreover have "written_on arguments cfg n (p # path)"
    using assms(4) written_on_Cons [OF assms(1,2)] by simp
  ultimately show ?thesis unfolding wit_simps by blast
qed

lemma witnessed_transfer:
  assumes "witnessed arguments cfg p m" and "p < length (blocks cfg)"
    and "block_ok arguments (blocks cfg ! p)"
    and "s \<in> set (successors (blocks cfg ! p))"
  shows "witnessed arguments cfg s (define_all (block_names arguments (blocks cfg ! p)) m)"
  unfolding witnessed_def
proof
  fix n
  from witnessed_reachable [OF assms(1)] obtain path where path: "entry_path cfg path p"
    by blast
  show "wit arguments cfg s n (define_all (block_names arguments (blocks cfg ! p)) m n)"
  proof (cases "n \<in> block_names arguments (blocks cfg ! p)")
    case True
    then show ?thesis
      using wit_assigned [OF assms(2,3,4) True path] by (simp add: define_all_def)
  next
    case False
    have "wit arguments cfg p n (m n)"
      using assms(1) by (simp add: witnessed_def)
    then show ?thesis
      using wit_extend [OF assms(2,3,4) False] False by (simp add: define_all_def)
  qed
qed

lemma wit_join:
  assumes "wit arguments cfg s n v" and "wit arguments cfg s n w" and "v \<noteq> w"
  shows "wit arguments cfg s n (Some PotentiallyDefined)"
  using assms(1)
proof (cases rule: wit_cases)
  case absent
  from assms(2) show ?thesis
  proof (cases rule: wit_cases)
    case absent
    with \<open>v = None\<close> assms(3) show ?thesis by simp
  next
    case defined
    with absent(2) show ?thesis unfolding wit_simps by blast
  next
    case potentially
    then show ?thesis unfolding wit_simps by blast
  qed
next
  case defined
  from assms(2) show ?thesis
  proof (cases rule: wit_cases)
    case absent
    with defined(2) show ?thesis unfolding wit_simps by blast
  next
    case defined
    with \<open>v = Some Defined\<close> assms(3) show ?thesis by simp
  next
    case potentially
    then show ?thesis unfolding wit_simps by blast
  qed
next
  case potentially
  then show ?thesis unfolding wit_simps by blast
qed

lemma witnessed_join:
  assumes "witnessed arguments cfg s m" and "witnessed arguments cfg s e"
  shows "witnessed arguments cfg s (join_map e m)"
  unfolding witnessed_def
proof
  fix n
  have m: "wit arguments cfg s n (m n)" and e: "wit arguments cfg s n (e n)"
    using assms by (simp_all add: witnessed_def)
  show "wit arguments cfg s n (join_map e m n)"
  proof (cases "e n = m n")
    case True
    with m show ?thesis by (simp add: join_map_def)
  next
    case False
    with wit_join [OF e m] show ?thesis by (simp add: join_map_def)
  qed
qed

lemma feed_successors_preserves:
  assumes "proper e" and "all_proper t"
    and "feed_successors e ss (t, q) = Inr (t', q')"
    and "\<forall>b m. t b = Some m \<longrightarrow> G b m"
    and "\<forall>s\<in>set ss. G s e"
    and "\<forall>s\<in>set ss. \<forall>m. G s m \<longrightarrow> G s (join_map e m)"
  shows "\<forall>b m. t' b = Some m \<longrightarrow> G b m"
  using assms(2-)
proof (induction ss arbitrary: t q)
  case Nil
  then show ?case by simp
next
  case (Cons s ss)
  define t1 where "t1 = (case t s of None \<Rightarrow> t(s \<mapsto> e) | Some m \<Rightarrow> t(s \<mapsto> join_map e m))"
  define q1 where "q1 = (case t s of None \<Rightarrow> q @ [s]
     | Some m \<Rightarrow> if join_map e m \<noteq> m then q @ [s] else q)"
  have step: "feed_successors e (s # ss) (t, q) = feed_successors e ss (t1, q1)"
    using feed_successors_step [OF assms(1) Cons.prems(1), of s ss q]
    by (simp add: t1_def q1_def split: option.splits)
  have p1: "all_proper t1"
    using Cons.prems(1) assms(1)
    by (auto simp: t1_def all_proper_def proper_join_map split: option.splits)
  have g1: "\<forall>b m. t1 b = Some m \<longrightarrow> G b m"
    using Cons.prems(3,4,5) by (auto simp: t1_def split: option.splits)
  show ?case
    using Cons.IH [OF p1 _ g1] Cons.prems(2,4,5) step by simp
qed

lemma least_in: "q \<noteq> [] \<Longrightarrow> least q \<in> set q"
  by (induction q rule: least.induct) (auto simp: min_def)

lemma finite_target_names: "finite (target_names t)"
  and finite_targets_names: "finite (targets_names ts)"
  by (induction t and ts rule: target_names_targets_names.induct) simp_all

lemma finite_stmt_names: "finite (stmt_names s)"
  by (cases s) (simp_all add: finite_targets_names)

lemma finite_block_names: "finite (block_names arguments b)"
  by (auto simp: block_names_def args_names_def finite_stmt_names finite_target_names
      finite_targets_names split: option.splits)

lemma finite_universe: "finite (universe arguments cfg)"
  by (simp add: universe_def finite_block_names)

lemma progress_set_mono: "le_states t t' \<Longrightarrow> progress_set t \<subseteq> progress_set t'"
  unfolding progress_set_def le_states_def le_map_def le_val_def
  by (auto; metis option.inject)

lemma progress_set_strict:
  assumes "le_states t t'" and "t' \<noteq> t"
  shows "progress_set t \<subset> progress_set t'"
proof -
  from assms(2) obtain b where b: "t' b \<noteq> t b" by (auto simp: fun_eq_iff)
  have "\<exists>x. x \<in> progress_set t' \<and> x \<notin> progress_set t"
  proof (cases "t b")
    case None
    with b have "(b, None) \<in> progress_set t'" "(b, None) \<notin> progress_set t"
      by (auto simp: progress_set_def)
    then show ?thesis by blast
  next
    case (Some m)
    then obtain m' where m': "t' b = Some m'" "le_map m m'"
      using assms(1) by (auto simp: le_states_def)
    with b Some obtain n where n: "m' n \<noteq> m n" by (auto simp: fun_eq_iff)
    with m' have "m' n = Some PotentiallyDefined" "m n \<noteq> Some PotentiallyDefined"
      by (auto simp: le_map_def le_val_def; metis)+
    with Some m' have "(b, Some n) \<in> progress_set t'" "(b, Some n) \<notin> progress_set t"
      by (auto simp: progress_set_def)
    then show ?thesis by blast
  qed
  with progress_set_mono [OF assms(1)] show ?thesis by blast
qed

lemma written_on_names:
  assumes "written_on arguments cfg n path"
  shows "n \<in> (\<Union>b\<in>set (blocks cfg). block_names arguments b)"
proof -
  from assms obtain p b where "deref cfg p = Some b" "n \<in> block_names arguments b"
    by (auto simp: written_on_def split: option.splits)
  then have "b \<in> set (blocks cfg)" "n \<in> block_names arguments b"
    by (auto simp: deref_def split: if_splits)
  then show ?thesis by blast
qed

lemma progress_set_universe:
  assumes "\<forall>b m. t b = Some m \<longrightarrow> b < length (blocks cfg) \<and> witnessed arguments cfg b m"
  shows "progress_set t \<subseteq> universe arguments cfg"
proof
  fix x assume x: "x \<in> progress_set t"
  then consider b where "x = (b, None)" "t b \<noteq> None"
    | b n m where "x = (b, Some n)" "t b = Some m" "m n = Some PotentiallyDefined"
    by (auto simp: progress_set_def)
  then show "x \<in> universe arguments cfg"
  proof cases
    case 1
    with assms show ?thesis by (auto simp: universe_def)
  next
    case 2
    with assms have "b < length (blocks cfg)" and "wit arguments cfg b n (m n)"
      unfolding witnessed_def by blast+
    with 2 show ?thesis
      by (auto simp: universe_def wit_simps dest: written_on_names)
  qed
qed

lemma proper_define_all: "proper m \<Longrightarrow> proper (define_all D m)"
  by (simp add: proper_def define_all_def)

lemma fp_step_Inv:
  assumes wf: "wf_transfer arguments cfg" and inv: "Inv arguments cfg st"
    and ne: "pending st \<noteq> []"
  shows "\<exists>st'. fp_step arguments st = Inr st' \<and> Inv arguments cfg st'
     \<and> le_states (states st) (states st')
     \<and> (states st' = states st \<and> length (pending st') < length (pending st)
        \<or> states st' \<noteq> states st)"
proof -
  define t where "t = states st"
  define q where "q = pending st"
  define b where "b = least q"
  define W where "W = block_names arguments (blocks cfg ! b)"
  define ss where "ss = successors (blocks cfg ! b)"
  define blk where "blk = blocks (graph st) ! b"
  from inv have sm: "sim arguments (graph st) cfg"
    and qd: "set q \<subseteq> dom t"
    and wt: "\<forall>b m. t b = Some m \<longrightarrow> b < length (blocks cfg) \<and> witnessed arguments cfg b m"
    and en: "\<exists>m0. t 0 = Some m0 \<and> (\<forall>n. m0 n \<noteq> Some Defined)"
    and sb: "\<forall>c. c \<notin> set q \<longrightarrow> stable arguments cfg t c"
    by (simp_all add: Inv_def t_def q_def)
  have bq: "b \<in> set q"
    using ne by (simp add: b_def q_def least_in)
  with qd obtain m where m: "t b = Some m" by blast
  with wt have blen: "b < length (blocks cfg)" and wm: "witnessed arguments cfg b m"
    by blast+
  have ap: "all_proper t"
    using wt by (auto simp: all_proper_def dest: witnessed_proper)
  have inblocks: "blocks cfg ! b \<in> set (blocks cfg)"
    using blen by simp
  then have ok0: "block_ok arguments (blocks cfg ! b)"
    and ssv: "\<forall>s\<in>set ss. s < length (blocks cfg)"
    using wf by (auto simp: wf_transfer_def ss_def)
  have simb: "similar arguments blk (blocks cfg ! b)"
    using sm blen by (simp add: sim_def blk_def)
  then have ok: "block_ok arguments blk" and names: "block_names arguments blk = W"
    and succs: "successors blk = ss"
    using ok0 by (simp_all add: similar_def W_def ss_def)
  have d: "deref (graph st) b = Some blk"
    using sm blen by (simp add: deref_def sim_def blk_def)
  define e where "e = define_all W m"
  have pb: "processBB arguments m blk = Inr (rebind_block blk, e)"
    using ok names by (simp add: processBB_eq e_def)
  have pe: "proper e"
    using witnessed_proper [OF wm] by (simp add: e_def proper_define_all)
  have sub: "subscript t b Map.empty = (m, t)"
    using m by (simp add: subscript_def)
  from feed_successors_result [OF pe ap, of ss "remove1 b q"] obtain t' pushed where
    fs: "feed_successors e ss (t, remove1 b q) = Inr (t', remove1 b q @ pushed)"
    and ap': "all_proper t'" and le: "le_states t t'"
    and psub: "set pushed \<subseteq> set ss"
    and ch: "\<forall>c. t' c \<noteq> t c \<longrightarrow> c \<in> set pushed"
    and same: "(pushed = []) = (t' = t)"
    and fed: "\<forall>s\<in>set ss. \<exists>m'. t' s = Some m' \<and> le_map e m'"
    and dom': "dom t' = dom t \<union> set ss"
    by blast
  define st' where "st' = \<lparr>graph = (graph st)\<lparr>blocks := (blocks (graph st))[b := rebind_block blk]\<rparr>,
     states = t', pending = remove1 b q @ pushed\<rparr>"
  have step: "fp_step arguments st = Inr st'"
    using d sub pb fs
    by (simp add: fp_step_def Let_def b_def [symmetric] q_def [symmetric] t_def [symmetric]
        succs st'_def)
  have i1: "sim arguments (graph st') cfg"
    unfolding sim_def
  proof (intro conjI allI impI)
    show "length (blocks (graph st')) = length (blocks cfg)"
      using sm by (simp add: st'_def sim_def)
    fix i assume i: "i < length (blocks cfg)"
    show "similar arguments (blocks (graph st') ! i) (blocks cfg ! i)"
    proof (cases "i = b")
      case True
      then show ?thesis
        using simb sm blen
        by (simp add: st'_def sim_def similar_def rebind_block_simps blk_def)
    next
      case False
      then show ?thesis
        using sm i by (simp add: st'_def sim_def)
    qed
  qed
  have i2: "set (pending st') \<subseteq> dom (states st')"
  proof -
    have "set (remove1 b q) \<subseteq> set q" by (rule set_remove1_subset)
    with qd dom' psub show ?thesis by (auto simp: st'_def)
  qed
  have i3: "\<forall>c mc. t' c = Some mc \<longrightarrow> c < length (blocks cfg) \<and> witnessed arguments cfg c mc"
  proof (rule feed_successors_preserves [OF pe ap fs wt])
    show "\<forall>s\<in>set ss. s < length (blocks cfg) \<and> witnessed arguments cfg s e"
      using ssv witnessed_transfer [OF wm blen ok0] by (simp add: e_def W_def ss_def)
    show "\<forall>s\<in>set ss. \<forall>m. s < length (blocks cfg) \<and> witnessed arguments cfg s m \<longrightarrow>
        s < length (blocks cfg) \<and> witnessed arguments cfg s (join_map e m)"
      using ssv witnessed_transfer [OF wm blen ok0]
      by (auto simp: e_def W_def ss_def intro: witnessed_join)
  qed
  have i4: "\<exists>m0. t' 0 = Some m0 \<and> (\<forall>n. m0 n \<noteq> Some Defined)"
  proof -
    from en obtain m0 where m0: "t 0 = Some m0" "\<forall>n. m0 n \<noteq> Some Defined" by blast
    with le obtain m0' where m0': "t' 0 = Some m0'" "le_map m0 m0'"
      unfolding le_states_def by blast
    have "m0' n \<noteq> Some Defined" for n
      using m0(2) m0'(2) unfolding le_map_def le_val_def
      by (metis DefinitionLevel.distinct(5) option.inject)
    with m0' show ?thesis by blast
  qed
  have i5: "stable arguments cfg t' c" if c: "c \<notin> set (remove1 b q @ pushed)" for c
  proof (cases "c = b")
    case True
    with c ch have "t' b = t b" by auto
    with m fed True show ?thesis
      by (simp add: stable_def e_def W_def ss_def)
  next
    case False
    with c have cq: "c \<notin> set q" and cp: "c \<notin> set pushed" by auto
    with ch have same_c: "t' c = t c" by auto
    from sb cq have st_c: "stable arguments cfg t c" by blast
    show ?thesis
      unfolding stable_def
    proof (intro allI impI ballI)
      fix mc s
      assume "t' c = Some mc" and s: "s \<in> set (successors (blocks cfg ! c))"
      with same_c have "t c = Some mc" by simp
      with st_c s obtain m1 where m1: "t s = Some m1"
        "le_map (define_all (block_names arguments (blocks cfg ! c)) mc) m1"
        by (auto simp: stable_def)
      with le obtain m2 where "t' s = Some m2" "le_map m1 m2"
        unfolding le_states_def by blast
      with m1 show "\<exists>m'. t' s = Some m'
          \<and> le_map (define_all (block_names arguments (blocks cfg ! c)) mc) m'"
        by (auto intro: le_map_trans)
    qed
  qed
  have inv': "Inv arguments cfg st'"
    unfolding Inv_def using i1 i2 i3 i4 i5 by (simp add: st'_def)
  have prog: "states st' = states st \<and> length (pending st') < length (pending st)
      \<or> states st' \<noteq> states st"
  proof (cases "pushed = []")
    case True
    with same have "t' = t" by simp
    moreover have "length (remove1 b q) < length q"
      using bq by (simp add: length_remove1) (cases q; simp)
    ultimately show ?thesis using True by (simp add: st'_def t_def q_def)
  next
    case False
    with same show ?thesis by (simp add: st'_def t_def)
  qed
  from step inv' le prog show ?thesis
    by (auto simp: st'_def t_def)
qed

lemma wf_fp_measure:
  "wf (inv_image (finite_psubset <*lex*> less_than)
    (\<lambda>st. (universe arguments cfg - progress_set (states st), length (pending st))))"
  by (intro wf_inv_image wf_lex_prod wf_finite_psubset wf_less_than)

lemma fp_loop_total:
  assumes wf: "wf_transfer arguments cfg" and inv: "Inv arguments cfg st"
  shows "\<exists>g' t'. fp_loop arguments st = Some (Inr (g', t'))
       \<and> Inv arguments cfg \<lparr>graph = g', states = t', pending = []\<rparr>"
  using inv
proof (induction st rule: wf_induct_rule [OF wf_fp_measure [of arguments cfg]])
  case (1 st)
  show ?case
  proof (cases "pending st = []")
    case True
    then have "fp_loop arguments st = Some (Inr (graph st, states st))"
      by (subst fp_loop.simps) simp
    moreover have "Inv arguments cfg \<lparr>graph = graph st, states = states st, pending = []\<rparr>"
      using "1.prems" True by (simp add: Inv_def)
    ultimately show ?thesis by blast
  next
    case False
    from fp_step_Inv [OF wf "1.prems" False] obtain st' where
      step: "fp_step arguments st = Inr st'" and inv': "Inv arguments cfg st'"
      and le: "le_states (states st) (states st')"
      and prog: "states st' = states st \<and> length (pending st') < length (pending st)
        \<or> states st' \<noteq> states st"
      by blast
    have u: "progress_set (states st) \<subseteq> universe arguments cfg"
      "progress_set (states st') \<subseteq> universe arguments cfg"
      using "1.prems" inv' by (auto simp: Inv_def intro!: progress_set_universe)
    have "(st', st) \<in> inv_image (finite_psubset <*lex*> less_than)
        (\<lambda>st. (universe arguments cfg - progress_set (states st), length (pending st)))"
    proof (cases "states st' = states st")
      case True
      with prog show ?thesis by simp
    next
      case False
      then have "progress_set (states st) \<subset> progress_set (states st')"
        using le by (simp add: progress_set_strict)
      with u have "universe arguments cfg - progress_set (states st')
          \<subset> universe arguments cfg - progress_set (states st)"
        by blast
      then show ?thesis
        by (simp add: finite_psubset_def finite_universe)
    qed
    from "1.IH" [OF this inv'] obtain g' t' where
      "fp_loop arguments st' = Some (Inr (g', t'))"
      "Inv arguments cfg \<lparr>graph = g', states = t', pending = []\<rparr>"
      by blast
    moreover have "fp_loop arguments st = fp_loop arguments st'"
      using False step by (subst fp_loop.simps) simp
    ultimately show ?thesis by simp
  qed
qed

lemma Inv_initial:
  assumes "wf_transfer arguments cfg"
  shows "Inv arguments cfg \<lparr>graph = cfg, states = [0 \<mapsto> Map.empty], pending = [0]\<rparr>"
proof -
  have "entry_path cfg [] 0" by simp
  then have "witnessed arguments cfg 0 Map.empty"
    unfolding witnessed_def wit_simps using written_on_Nil by blast
  moreover have "0 < length (blocks cfg)"
    using assms by (simp add: wf_transfer_def)
  ultimately show ?thesis
    by (auto simp: Inv_def sim_def similar_def stable_def)
qed

lemma computeFixedPoint_total:
  assumes "wf_transfer arguments cfg"
  shows "\<exists>g' t'. computeFixedPoint arguments cfg = Some (Inr (g', t'))
       \<and> Inv arguments cfg \<lparr>graph = g', states = t', pending = []\<rparr>"
proof -
  have "blocks cfg \<noteq> []" using assms by (simp add: wf_transfer_def)
  then show ?thesis
    using fp_loop_total [OF assms Inv_initial [OF assms]]
    by (simp add: computeFixedPoint_def)
qed

lemma entry_path_valid:
  "entry_path cfg (p # path) b \<Longrightarrow> p < length (blocks cfg) \<and> b \<in> set (successors (blocks cfg ! p))"
  by (auto simp: edge_def deref_def split: if_splits)

lemma stable_paths:
  assumes wf: "wf_transfer arguments cfg"
    and inv: "Inv arguments cfg \<lparr>graph = g', states = t, pending = []\<rparr>"
  shows "entry_path cfg path b \<Longrightarrow>
     \<exists>m. t b = Some m
       \<and> (written_on arguments cfg n path \<longrightarrow>
            m n = Some Defined \<or> m n = Some PotentiallyDefined)
       \<and> (\<not> written_on arguments cfg n path \<longrightarrow>
            m n = None \<or> m n = Some PotentiallyDefined)"
proof (induction path arbitrary: b)
  case Nil
  then have b: "b = 0" by simp
  from inv obtain m0 where m0: "t 0 = Some m0" "\<forall>n. m0 n \<noteq> Some Defined"
    and w: "witnessed arguments cfg 0 m0"
    by (auto simp: Inv_def)
  have "m0 n \<noteq> Some Undefined"
    using witnessed_proper [OF w] by (simp add: proper_def)
  with m0 have "m0 n = None \<or> m0 n = Some PotentiallyDefined"
    by (cases "m0 n") (auto intro: DefinitionLevel.exhaust)
  with m0 b written_on_Nil show ?case by simp
next
  case (Cons p path)
  then have ep: "entry_path cfg path p" by simp
  from entry_path_valid [OF Cons.prems] have plen: "p < length (blocks cfg)"
    and bs: "b \<in> set (successors (blocks cfg ! p))"
    by simp_all
  from plen have "blocks cfg ! p \<in> set (blocks cfg)" by simp
  with wf have ok: "block_ok arguments (blocks cfg ! p)"
    by (simp add: wf_transfer_def)
  from Cons.IH [OF ep] obtain mp where mp: "t p = Some mp"
    and w1: "written_on arguments cfg n path \<longrightarrow>
        mp n = Some Defined \<or> mp n = Some PotentiallyDefined"
    and w2: "\<not> written_on arguments cfg n path \<longrightarrow>
        mp n = None \<or> mp n = Some PotentiallyDefined"
    by blast
  from inv have "stable arguments cfg t p" by (simp add: Inv_def)
  with mp bs obtain m where m: "t b = Some m"
    and le: "le_map (define_all (block_names arguments (blocks cfg ! p)) mp) m"
    by (auto simp: stable_def)
  from le have lv: "le_val (define_all (block_names arguments (blocks cfg ! p)) mp n) (m n)"
    by (simp add: le_map_def)
  note wr = written_on_Cons [OF plen ok, of n path]
  show ?case
  proof (cases "n \<in> block_names arguments (blocks cfg ! p)")
    case True
    with lv have "m n = Some Defined \<or> m n = Some PotentiallyDefined"
      by (auto simp: define_all_def le_val_def)
    with m wr True show ?thesis by simp
  next
    case False
    with lv have "m n = mp n \<or> m n = Some PotentiallyDefined"
      by (auto simp: define_all_def le_val_def)
    with m wr False w1 w2 show ?thesis by auto
  qed
qed

lemma isDefinedAt_new:
  "fst (isDefinedAt n block (new_DefinednessAnalysis table scope))
     = (case table block of
          None \<Rightarrow> Undefined
        | Some m \<Rightarrow> (case m n of None \<Rightarrow> Undefined | Some level \<Rightarrow> level))"
  by (simp add: isDefinedAt_def new_DefinednessAnalysis_def subscript_def Let_def
      split: option.splits)

lemma fixed_point_levels:
  assumes wf: "wf_transfer arguments cfg"
    and inv: "Inv arguments cfg \<lparr>graph = g', states = t, pending = []\<rparr>"
  shows "fst (isDefinedAt n block (new_DefinednessAnalysis t scope))
      = (if \<exists>path. entry_path cfg path block \<and> written_on arguments cfg n path
         then if \<forall>path. entry_path cfg path block \<longrightarrow> written_on arguments cfg n path
              then Defined else PotentiallyDefined
         else Undefined)"
    and "\<not> (\<exists>path. entry_path cfg path block \<and> written_on arguments cfg n path) \<Longrightarrow>
      t block = Some m \<Longrightarrow> m n = None"
proof -
  note sp = stable_paths [OF wf inv, of _ block n]
  have wit: "wit arguments cfg block n (m n)" if "t block = Some m" for m
    using inv that unfolding Inv_def witnessed_def by simp
  show "fst (isDefinedAt n block (new_DefinednessAnalysis t scope))
      = (if \<exists>path. entry_path cfg path block \<and> written_on arguments cfg n path
         then if \<forall>path. entry_path cfg path block \<longrightarrow> written_on arguments cfg n path
              then Defined else PotentiallyDefined
         else Undefined)"
  proof (cases "\<exists>path. entry_path cfg path block \<and> written_on arguments cfg n path")
    case some: True
    then obtain path where path: "entry_path cfg path block" "written_on arguments cfg n path"
      by blast
    from sp [OF path(1)] path(2) obtain m where m: "t block = Some m"
      "m n = Some Defined \<or> m n = Some PotentiallyDefined"
      by blast
    show ?thesis
    proof (cases "\<forall>path. entry_path cfg path block \<longrightarrow> written_on arguments cfg n path")
      case True
      have "m n \<noteq> Some PotentiallyDefined"
      proof
        assume "m n = Some PotentiallyDefined"
        with wit [OF m(1)] have "\<exists>path. entry_path cfg path block
            \<and> \<not> written_on arguments cfg n path"
          by (simp add: wit_simps)
        with True show False by blast
      qed
      with m some True show ?thesis by (auto simp: isDefinedAt_new)
    next
      case False
      then obtain path' where "entry_path cfg path' block" "\<not> written_on arguments cfg n path'"
        by blast
      with sp [of path'] m(1) have "m n = None \<or> m n = Some PotentiallyDefined"
        by auto
      with m some False show ?thesis by (auto simp: isDefinedAt_new)
    qed
  next
    case none: False
    show ?thesis
    proof (cases "t block")
      case None
      with none show ?thesis by (simp add: isDefinedAt_new)
    next
      case (Some m)
      from wit [OF Some] none have "m n = None"
        by (cases rule: wit_cases) auto
      with Some none show ?thesis by (simp add: isDefinedAt_new)
    qed
  qed
  show "m n = None"
    if "\<not> (\<exists>path. entry_path cfg path block \<and> written_on arguments cfg n path)"
      and "t block = Some m"
    using wit [OF that(2)] that(1) by (cases rule: wit_cases) auto
qed

lemma entry_path_last: "entry_path cfg path b \<Longrightarrow> path \<noteq> [] \<Longrightarrow> last path = 0"
  by (induction path arbitrary: b) auto

lemma entry_path_entry: "entry_path cfg_ex path 0 \<Longrightarrow> path = []"
  by (cases path) (auto simp: edge_def deref_def cfg_ex_def nth_Cons' split: if_splits)

lemma cfg_ex_wf_transfer: "wf_transfer (Some args_ex) cfg_ex"
  by (simp add: wf_transfer_def block_ok_def args_ok_def args_ex_def cfg_ex_def)

lemma cfg_ex_block_names:
  "block_names (Some args_ex) (blocks cfg_ex ! 0) = {''x'', ''g'', ''kw'', ''va'', ''a''}"
  "block_names (Some args_ex) (blocks cfg_ex ! Suc 0) = {''y''}"
  "block_names (Some args_ex) (blocks cfg_ex ! 2) = {}"
  by (auto simp: block_names_def args_names_def args_ex_def cfg_ex_def)

text \<open>
  The computation on the example graph with the parameter list \<^verbatim>\<open>(a, *va, **kw)\<close>, round
  by round: block 0 is taken up and hands its exit state to blocks 2 and 1; block 1 is
  taken up and its exit state is merged into the entry state of block 2, where \<open>y\<close>
  becomes \<open>PotentiallyDefined\<close>; block 2 is taken up twice and changes nothing.
\<close>

lemma computeFixedPoint_cfg_ex:
  "\<exists>cfg' table m0 m1 m2. computeFixedPoint (Some args_ex) cfg_ex = Some (Inr (cfg', table))
     \<and> table 0 = Some m0 \<and> table 1 = Some m1 \<and> table 2 = Some m2
     \<and> m0 ''a'' = None \<and> m0 ''x'' = None
     \<and> m1 ''a'' = Some Defined \<and> m1 ''va'' = Some Defined \<and> m1 ''kw'' = Some Defined
     \<and> m1 ''x'' = Some Defined \<and> m1 ''y'' = None
     \<and> m2 ''a'' = Some Defined \<and> m2 ''x'' = Some Defined
     \<and> m2 ''y'' = Some PotentiallyDefined \<and> m2 ''q'' = None"
proof -
  let ?A = "Some args_ex"
  define e0 :: Map where "e0 = [''x'' \<mapsto> Defined, ''g'' \<mapsto> Defined, ''kw'' \<mapsto> Defined,
    ''va'' \<mapsto> Defined, ''a'' \<mapsto> Defined]"
  define e1 :: Map where "e1 = e0(''y'' \<mapsto> Defined)"
  define m2 :: Map where "m2 = e0(''y'' \<mapsto> PotentiallyDefined)"
  define t1 :: "nat \<rightharpoonup> Map" where "t1 = [0 \<mapsto> Map.empty, 2 \<mapsto> e0, 1 \<mapsto> e0]"
  define t2 :: "nat \<rightharpoonup> Map" where "t2 = t1(2 \<mapsto> m2)"
  have b0: "processBB ?A Map.empty (blocks cfg_ex ! 0) = Inr (blocks cfg_ex ! 0, e0)"
    by (simp add: cfg_ex_def args_ex_def processBB_def visit_arguments_def doSet_name_def e0_def)
  have b1: "processBB ?A e0 (blocks cfg_ex ! Suc 0) = Inr (blocks cfg_ex ! Suc 0, e1)"
    by (simp add: cfg_ex_def processBB_def doSet_name_def e1_def)
  have b2: "processBB ?A m2 (blocks cfg_ex ! 2) = Inr (blocks cfg_ex ! 2, m2)"
    by (simp add: cfg_ex_def processBB_def)
  have len: "length (blocks cfg_ex) = 3" and upd: "\<And>i. (blocks cfg_ex)[i := blocks cfg_ex ! i] = blocks cfg_ex"
    and s0: "successors (blocks cfg_ex ! 0) = [2, 1]" and s1: "successors (blocks cfg_ex ! Suc 0) = [2]"
    and s2: "successors (blocks cfg_ex ! 2) = []"
    by (simp_all add: cfg_ex_def)
  have f: "feed e1 e0 = Inr m2"
  proof -
    have "\<not> (\<exists>n\<in>dom e1 \<union> dom e0. isl (join_value (e1 n) (e0 n)))"
      by (auto simp: e1_def e0_def merge_def mergeBlank_def)
    moreover have "(\<lambda>n. case join_value (e1 n) (e0 n) of Inl x \<Rightarrow> None | Inr r \<Rightarrow> r) = m2"
      by (rule ext) (simp add: e1_def e0_def m2_def merge_def mergeBlank_def)
    ultimately show ?thesis by (simp add: feed_def)
  qed
  have ch: "\<exists>n\<in>dom e1 \<union> dom e0. m2 n \<noteq> e0 n"
    by (rule bexI [of _ "''y''"]) (simp_all add: e1_def e0_def m2_def)
  have r1: "fp_step ?A \<lparr>graph = cfg_ex, states = [0 \<mapsto> Map.empty], pending = [0]\<rparr>
      = Inr \<lparr>graph = cfg_ex, states = t1, pending = [2, Suc 0]\<rparr>"
    by (simp add: fp_step_def deref_def len subscript_def b0 s0 upd t1_def)
  have r2: "fp_step ?A \<lparr>graph = cfg_ex, states = t1, pending = [2, Suc 0]\<rparr>
      = Inr \<lparr>graph = cfg_ex, states = t2, pending = [2, 2]\<rparr>"
    using ch by (simp add: fp_step_def deref_def len subscript_def b1 s1 upd t1_def t2_def f)
  have r3: "fp_step ?A \<lparr>graph = cfg_ex, states = t2, pending = [2, 2]\<rparr>
      = Inr \<lparr>graph = cfg_ex, states = t2, pending = [2]\<rparr>"
    by (simp add: fp_step_def deref_def len subscript_def b2 s2 upd t1_def t2_def)
  have r4: "fp_step ?A \<lparr>graph = cfg_ex, states = t2, pending = [2]\<rparr>
      = Inr \<lparr>graph = cfg_ex, states = t2, pending = []\<rparr>"
    by (simp add: fp_step_def deref_def len subscript_def b2 s2 upd t1_def t2_def)
  have ne: "blocks cfg_ex \<noteq> []" using len by auto
  have "computeFixedPoint ?A cfg_ex = Some (Inr (cfg_ex, t2))"
    unfolding computeFixedPoint_def
    apply (simp only: ne if_False)
    apply (subst fp_loop.simps, simp add: r1)
    apply (subst fp_loop.simps, simp add: r2)
    apply (subst fp_loop.simps, simp add: r3)
    apply (subst fp_loop.simps, simp add: r4)
    apply (subst fp_loop.simps, simp)
    done
  moreover have "t2 0 = Some Map.empty" "t2 1 = Some e0" "t2 2 = Some m2"
    by (simp_all add: t2_def t1_def)
  moreover have "e0 ''a'' = Some Defined" "e0 ''va'' = Some Defined" "e0 ''kw'' = Some Defined"
    "e0 ''x'' = Some Defined" "e0 ''y'' = None"
    "m2 ''a'' = Some Defined" "m2 ''x'' = Some Defined" "m2 ''y'' = Some PotentiallyDefined" "m2 ''q'' = None"
    by (simp_all add: e0_def m2_def)
  ultimately show ?thesis by (intro exI [of _ cfg_ex] exI [of _ t2] exI [of _ "Map.empty"] exI [of _ e0] exI [of _ m2]) simp
qed

text \<open>
  Claim C1. On a graph on which the transfer is well formed the fixed-point computation
  returns, and for every name and block the level that \<^verbatim>\<open>isDefinedAt\<close> reads from its
  table is \<open>Defined\<close> when some path from the entry block to the block's entry writes the
  name and every such path does, \<open>PotentiallyDefined\<close> when some such path writes it and
  some does not, and \<open>Undefined\<close> when no such path writes it; in the last case the name
  is absent from the block's map.
\<close>

theorem definedness_lattice_correct:
  assumes "wf_transfer arguments cfg"
  shows "\<exists>cfg' table. computeFixedPoint arguments cfg = Some (Inr (cfg', table))
     \<and> (\<forall>n block.
          fst (isDefinedAt n block (new_DefinednessAnalysis table scope))
            = (if \<exists>path. entry_path cfg path block \<and> written_on arguments cfg n path
               then if \<forall>path. entry_path cfg path block \<longrightarrow> written_on arguments cfg n path
                    then Defined else PotentiallyDefined
               else Undefined)
          \<and> (\<not> (\<exists>path. entry_path cfg path block \<and> written_on arguments cfg n path) \<longrightarrow>
               (\<forall>m. table block = Some m \<longrightarrow> m n = None)))"
proof -
  from computeFixedPoint_total [OF assms] obtain g' t' where
    run: "computeFixedPoint arguments cfg = Some (Inr (g', t'))"
    and inv: "Inv arguments cfg \<lparr>graph = g', states = t', pending = []\<rparr>"
    by blast
  show ?thesis
    using run fixed_point_levels(1) [OF assms inv, where scope = scope]
      fixed_point_levels(2) [OF assms inv]
    by blast
qed

text \<open>
  The example graph with the parameter list \<^verbatim>\<open>(a, *va, **kw)\<close>: the parameters are bound by
  the entry block, so they are \<open>Undefined\<close> at its entry and \<open>Defined\<close> at block 1; at the
  merge block \<open>x\<close> is written on both paths, \<open>y\<close> on the path through block 1 only, and
  \<open>q\<close> on none. The chain with \<^verbatim>\<open>import os as x, sys\<close> in block 1: the one path to the entry
  of block 2 goes through the import, which binds \<open>x\<close> and \<open>sys\<close> and does not bind \<open>os\<close>.
\<close>

theorem definedness_lattice_correct_witness:
  "(\<exists>cfg' table. computeFixedPoint (Some args_ex) cfg_ex = Some (Inr (cfg', table))
     \<and> fst (isDefinedAt ''a'' 0 (new_DefinednessAnalysis table scope_ex)) = Undefined
     \<and> fst (isDefinedAt ''a'' 1 (new_DefinednessAnalysis table scope_ex)) = Defined
     \<and> fst (isDefinedAt ''va'' 1 (new_DefinednessAnalysis table scope_ex)) = Defined
     \<and> fst (isDefinedAt ''kw'' 1 (new_DefinednessAnalysis table scope_ex)) = Defined
     \<and> fst (isDefinedAt ''x'' 2 (new_DefinednessAnalysis table scope_ex)) = Defined
     \<and> fst (isDefinedAt ''y'' 2 (new_DefinednessAnalysis table scope_ex)) = PotentiallyDefined
     \<and> fst (isDefinedAt ''q'' 2 (new_DefinednessAnalysis table scope_ex)) = Undefined)
   \<and> (\<exists>cfg' table.
         computeFixedPoint None (cfg_chain (Import [Alias ''os'' ''x'', Alias ''sys'' []]))
           = Some (Inr (cfg', table))
       \<and> fst (isDefinedAt ''x'' 1 (new_DefinednessAnalysis table scope_ex)) = Undefined
       \<and> fst (isDefinedAt ''x'' 2 (new_DefinednessAnalysis table scope_ex)) = Defined
       \<and> fst (isDefinedAt ''sys'' 2 (new_DefinednessAnalysis table scope_ex)) = Defined
       \<and> fst (isDefinedAt ''os'' 2 (new_DefinednessAnalysis table scope_ex)) = Undefined)"
proof (rule conjI)
  let ?A = "Some args_ex"
  have p01: "entry_path cfg_ex [0] 1" and p0: "entry_path cfg_ex [0] 2"
    and p1: "entry_path cfg_ex [1, 0] 2"
    by (simp_all add: edge_def deref_def cfg_ex_def)
  have w: "written_on ?A cfg_ex n path
      = (\<exists>p\<in>set path. p < 3 \<and> n \<in> block_names ?A (blocks cfg_ex ! p))" for n path
    by (auto simp: written_on_def deref_def cfg_ex_length split: if_splits)
  have first: "written_on ?A cfg_ex n path"
    if "entry_path cfg_ex path b" and "b \<noteq> 0"
      and "n \<in> {''x'', ''g'', ''kw'', ''va'', ''a''}" for n path b
  proof -
    from that(1,2) have "path \<noteq> []" by (cases path) auto
    with that(1) have "0 \<in> set path" using entry_path_last [OF that(1)] by (metis last_in_set)
    then show ?thesis
      unfolding w using that(3) by (intro bexI [of _ 0]) (simp_all add: cfg_ex_block_names)
  qed
  have none0: "\<not> (\<exists>path. entry_path cfg_ex path 0 \<and> written_on ?A cfg_ex n path)" for n
    using entry_path_entry written_on_Nil by blast
  have y_some: "written_on ?A cfg_ex ''y'' [1, 0]"
    by (simp add: w cfg_ex_block_names)
  have y_not: "\<not> written_on ?A cfg_ex ''y'' [0]"
    by (simp add: w cfg_ex_block_names)
  have q_none: "\<not> written_on ?A cfg_ex ''q'' path" for path
  proof -
    have "''q'' \<notin> block_names ?A (blocks cfg_ex ! p)" if "p < 3" for p
    proof -
      from that consider "p = 0" | "p = Suc 0" | "p = 2" by linarith
      then show ?thesis by cases (simp_all add: cfg_ex_block_names)
    qed
    then show ?thesis unfolding w by blast
  qed
  from definedness_lattice_correct [OF cfg_ex_wf_transfer, of scope_ex] obtain cfg' table where
    run: "computeFixedPoint ?A cfg_ex = Some (Inr (cfg', table))"
    and lv: "\<And>n block. fst (isDefinedAt n block (new_DefinednessAnalysis table scope_ex))
        = (if \<exists>path. entry_path cfg_ex path block \<and> written_on ?A cfg_ex n path
           then if \<forall>path. entry_path cfg_ex path block \<longrightarrow> written_on ?A cfg_ex n path
                then Defined else PotentiallyDefined
           else Undefined)"
    by blast
  have all1: "(\<exists>path. entry_path cfg_ex path 1 \<and> written_on ?A cfg_ex n path)
      \<and> (\<forall>path. entry_path cfg_ex path 1 \<longrightarrow> written_on ?A cfg_ex n path)"
    if n: "n \<in> {''x'', ''g'', ''kw'', ''va'', ''a''}" for n
  proof -
    have "written_on ?A cfg_ex n path" if "entry_path cfg_ex path 1" for path
      by (rule first [OF that _ n]) simp
    then show ?thesis using p01 by blast
  qed
  have ax: "\<forall>path. entry_path cfg_ex path 2 \<longrightarrow> written_on ?A cfg_ex ''x'' path"
  proof (intro allI impI)
    fix path assume "entry_path cfg_ex path 2"
    then show "written_on ?A cfg_ex ''x'' path" by (rule first) simp_all
  qed
  have ex: "\<exists>path. entry_path cfg_ex path 2 \<and> written_on ?A cfg_ex ''x'' path"
    using p0 ax by blast
  have ey: "\<exists>path. entry_path cfg_ex path 2 \<and> written_on ?A cfg_ex ''y'' path"
    using p1 y_some by blast
  have ay: "\<not> (\<forall>path. entry_path cfg_ex path 2 \<longrightarrow> written_on ?A cfg_ex ''y'' path)"
    using p0 y_not by blast
  have eq: "\<not> (\<exists>path. entry_path cfg_ex path 2 \<and> written_on ?A cfg_ex ''q'' path)"
    using q_none by blast
  have "fst (isDefinedAt ''a'' 0 (new_DefinednessAnalysis table scope_ex)) = Undefined"
    unfolding lv using none0 [of "''a''"] by simp
  moreover have "fst (isDefinedAt ''a'' 1 (new_DefinednessAnalysis table scope_ex)) = Defined"
    unfolding lv using all1 [of "''a''"] by simp
  moreover have "fst (isDefinedAt ''va'' 1 (new_DefinednessAnalysis table scope_ex)) = Defined"
    unfolding lv using all1 [of "''va''"] by simp
  moreover have "fst (isDefinedAt ''kw'' 1 (new_DefinednessAnalysis table scope_ex)) = Defined"
    unfolding lv using all1 [of "''kw''"] by simp
  moreover have "fst (isDefinedAt ''x'' 2 (new_DefinednessAnalysis table scope_ex)) = Defined"
    unfolding lv using ex ax by simp
  moreover have "fst (isDefinedAt ''y'' 2 (new_DefinednessAnalysis table scope_ex))
      = PotentiallyDefined"
    unfolding lv using ey ay by simp
  moreover have "fst (isDefinedAt ''q'' 2 (new_DefinednessAnalysis table scope_ex)) = Undefined"
    unfolding lv using eq by simp
  ultimately show "\<exists>cfg' table.
      computeFixedPoint (Some args_ex) cfg_ex = Some (Inr (cfg', table))
    \<and> fst (isDefinedAt ''a'' 0 (new_DefinednessAnalysis table scope_ex)) = Undefined
    \<and> fst (isDefinedAt ''a'' 1 (new_DefinednessAnalysis table scope_ex)) = Defined
    \<and> fst (isDefinedAt ''va'' 1 (new_DefinednessAnalysis table scope_ex)) = Defined
    \<and> fst (isDefinedAt ''kw'' 1 (new_DefinednessAnalysis table scope_ex)) = Defined
    \<and> fst (isDefinedAt ''x'' 2 (new_DefinednessAnalysis table scope_ex)) = Defined
    \<and> fst (isDefinedAt ''y'' 2 (new_DefinednessAnalysis table scope_ex)) = PotentiallyDefined
    \<and> fst (isDefinedAt ''q'' 2 (new_DefinednessAnalysis table scope_ex)) = Undefined"
    using run by blast
next
  let ?c = "cfg_chain (Import [Alias ''os'' ''x'', Alias ''sys'' []])"
  have wf: "wf_transfer None ?c"
    by (simp add: wf_transfer_def block_ok_def cfg_chain_def)
  have e: "edge ?c p q = (p = 0 \<and> q = Suc 0 \<or> p = Suc 0 \<and> q = 2)" for p q
    by (auto simp: edge_def deref_def cfg_chain_def nth_Cons' split: if_splits)
  have to0: "entry_path ?c path 0 = (path = [])" for path
    by (cases path) (auto simp: e)
  have to1: "entry_path ?c path (Suc 0) = (path = [0])" for path
    by (cases path) (auto simp: e to0)
  have to2: "entry_path ?c path 2 = (path = [Suc 0, 0])" for path
    by (cases path) (auto simp: e to1)
  have w: "written_on None ?c n [Suc 0, 0] = (n = ''x'' \<or> n = ''sys'')" for n
    by (auto simp: written_on_def deref_def cfg_chain_def block_names_def bound_name_def)
  have w0: "\<not> written_on None ?c n [0]" for n
    by (simp add: written_on_def deref_def cfg_chain_def block_names_def)
  from definedness_lattice_correct [OF wf, of scope_ex] obtain cfg' table where
    run: "computeFixedPoint None ?c = Some (Inr (cfg', table))"
    and lv: "\<And>n block. fst (isDefinedAt n block (new_DefinednessAnalysis table scope_ex))
        = (if \<exists>path. entry_path ?c path block \<and> written_on None ?c n path
           then if \<forall>path. entry_path ?c path block \<longrightarrow> written_on None ?c n path
                then Defined else PotentiallyDefined
           else Undefined)"
    by blast
  have "fst (isDefinedAt ''x'' 1 (new_DefinednessAnalysis table scope_ex)) = Undefined"
    unfolding lv by (simp add: to1 w0)
  moreover have "fst (isDefinedAt ''x'' 2 (new_DefinednessAnalysis table scope_ex)) = Defined"
    unfolding lv by (simp add: to2 w)
  moreover have "fst (isDefinedAt ''sys'' 2 (new_DefinednessAnalysis table scope_ex)) = Defined"
    unfolding lv by (simp add: to2 w)
  moreover have "fst (isDefinedAt ''os'' 2 (new_DefinednessAnalysis table scope_ex)) = Undefined"
    unfolding lv by (simp add: to2 w)
  ultimately show "\<exists>cfg' table. computeFixedPoint None ?c = Some (Inr (cfg', table))
    \<and> fst (isDefinedAt ''x'' 1 (new_DefinednessAnalysis table scope_ex)) = Undefined
    \<and> fst (isDefinedAt ''x'' 2 (new_DefinednessAnalysis table scope_ex)) = Defined
    \<and> fst (isDefinedAt ''sys'' 2 (new_DefinednessAnalysis table scope_ex)) = Defined
    \<and> fst (isDefinedAt ''os'' 2 (new_DefinednessAnalysis table scope_ex)) = Undefined"
    using run by blast
qed

lemma fp_step_proper:
  assumes "all_proper (states st)"
  shows "fp_step arguments st \<noteq> Inl AssertUndefinedArg
    \<and> (\<forall>st'. fp_step arguments st = Inr st' \<longrightarrow> all_proper (states st'))"
proof (cases "deref (graph st) (least (pending st))")
  case None
  then show ?thesis by (simp add: fp_step_def Let_def)
next
  case (Some b)
  define r where "r = subscript (states st) (least (pending st)) Map.empty"
  have pr: "proper (fst r)" and ap: "all_proper (snd r)"
    using assms
    by (auto simp: r_def subscript_def all_proper_def proper_def split: option.splits)
  show ?thesis
  proof (cases "block_ok arguments b")
    case False
    then show ?thesis
      using Some by (simp add: fp_step_def Let_def processBB_eq)
  next
    case True
    define e where "e = define_all (block_names arguments b) (fst r)"
    have pe: "proper e" using pr by (simp add: e_def proper_define_all)
    from feed_successors_result [OF pe ap, of "successors b"
        "remove1 (least (pending st)) (pending st)"]
    obtain t' pushed where
      "feed_successors e (successors b) (snd r, remove1 (least (pending st)) (pending st))
         = Inr (t', remove1 (least (pending st)) (pending st) @ pushed)"
      and "all_proper t'"
      by blast
    then show ?thesis
      using Some True
      by (auto simp: fp_step_def Let_def processBB_eq r_def [symmetric] e_def [symmetric])
  qed
qed

lemma fp_loop_proper_aux:
  assumes "fp_loop arguments st = Some r"
  shows "all_proper (states st) \<longrightarrow>
     r \<noteq> Inl AssertUndefinedArg \<and> (\<forall>g t. r = Inr (g, t) \<longrightarrow> all_proper t)"
proof (rule fp_loop.raw_induct [where P = "\<lambda>arguments st r. all_proper (states st) \<longrightarrow>
     r \<noteq> Inl AssertUndefinedArg \<and> (\<forall>g t. r = Inr (g, t) \<longrightarrow> all_proper t)", OF _ assms])
  fix f arguments st r
  assume IH: "\<And>a s y. f a s = Some y \<Longrightarrow> all_proper (states s) \<longrightarrow>
     y \<noteq> Inl AssertUndefinedArg \<and> (\<forall>g t. y = Inr (g, t) \<longrightarrow> all_proper t)"
    and eq: "(if pending st = [] then Some (Inr (graph st, states st))
        else if isl (fp_step arguments st) then Some (Inl (projl (fp_step arguments st)))
        else f arguments (projr (fp_step arguments st))) = Some r"
  show "all_proper (states st) \<longrightarrow>
     r \<noteq> Inl AssertUndefinedArg \<and> (\<forall>g t. r = Inr (g, t) \<longrightarrow> all_proper t)"
  proof
    assume ap: "all_proper (states st)"
    show "r \<noteq> Inl AssertUndefinedArg \<and> (\<forall>g t. r = Inr (g, t) \<longrightarrow> all_proper t)"
    proof (cases "pending st = []")
      case True
      with eq ap show ?thesis by auto
    next
      case ne: False
      show ?thesis
      proof (cases "fp_step arguments st")
        case (Inl x)
        with eq ne have "r = Inl x" by simp
        with Inl fp_step_proper [OF ap, of arguments] show ?thesis by auto
      next
        case (Inr st')
        with eq ne have "f arguments st' = Some r" by simp
        moreover have "all_proper (states st')"
          using Inr fp_step_proper [OF ap, of arguments] by simp
        ultimately show ?thesis using IH by blast
      qed
    qed
  qed
qed

lemma fp_loop_proper:
  assumes "fp_loop arguments st = Some r" and "all_proper (states st)"
  shows "r \<noteq> Inl AssertUndefinedArg \<and> (\<forall>g t. r = Inr (g, t) \<longrightarrow> all_proper t)"
  using fp_loop_proper_aux [OF assms(1)] assms(2) by blast

text \<open>
  Claim C7. The fixed-point computation never stops at an assertion of \<^verbatim>\<open>merge\<close> or
  \<^verbatim>\<open>mergeBlank\<close>, whatever the graph, and no map of its result holds \<open>Undefined\<close>. On
  values other than \<open>Undefined\<close>, \<^verbatim>\<open>merge\<close> returns \<open>PotentiallyDefined\<close> if one of its
  arguments is \<open>PotentiallyDefined\<close> and \<open>Defined\<close> otherwise, and \<^verbatim>\<open>mergeBlank\<close> returns
  \<open>PotentiallyDefined\<close>.
\<close>

theorem merge_never_sees_Undefined:
  "computeFixedPoint arguments cfg \<noteq> Some (Inl AssertUndefinedArg)
   \<and> (\<forall>cfg' table b m n. computeFixedPoint arguments cfg = Some (Inr (cfg', table)) \<longrightarrow>
         table b = Some m \<longrightarrow> m n \<noteq> Some Undefined)
   \<and> (x \<noteq> Undefined \<and> y \<noteq> Undefined \<longrightarrow>
         merge x y = Inr (if x = PotentiallyDefined \<or> y = PotentiallyDefined
                          then PotentiallyDefined else Defined))
   \<and> (y \<noteq> Undefined \<longrightarrow> mergeBlank y = Inr PotentiallyDefined)"
proof -
  have init: "all_proper [0 \<mapsto> Map.empty]"
    by (simp add: all_proper_def proper_def)
  have a: "computeFixedPoint arguments cfg \<noteq> Some (Inl AssertUndefinedArg)"
  proof (cases "blocks cfg = []")
    case True
    then show ?thesis by (simp add: computeFixedPoint_def)
  next
    case False
    show ?thesis
    proof
      assume "computeFixedPoint arguments cfg = Some (Inl AssertUndefinedArg)"
      with False have "fp_loop arguments
          \<lparr>graph = cfg, states = [0 \<mapsto> Map.empty], pending = [0]\<rparr> = Some (Inl AssertUndefinedArg)"
        by (simp add: computeFixedPoint_def)
      from fp_loop_proper [OF this] init show False by simp
    qed
  qed
  have b: "m n \<noteq> Some Undefined"
    if "computeFixedPoint arguments cfg = Some (Inr (cfg', table))" and "table b = Some m"
    for cfg' table b m n
  proof -
    from that(1) have "fp_loop arguments
        \<lparr>graph = cfg, states = [0 \<mapsto> Map.empty], pending = [0]\<rparr> = Some (Inr (cfg', table))"
      by (simp add: computeFixedPoint_def split: if_splits)
    from fp_loop_proper [OF this] init have "all_proper table" by simp
    with that(2) show ?thesis by (auto simp: all_proper_def proper_def)
  qed
  have c: "x \<noteq> Undefined \<and> y \<noteq> Undefined \<longrightarrow>
         merge x y = Inr (if x = PotentiallyDefined \<or> y = PotentiallyDefined
                          then PotentiallyDefined else Defined)"
    by (simp add: merge_def)
  have d: "y \<noteq> Undefined \<longrightarrow> mergeBlank y = Inr PotentiallyDefined"
    by (simp add: mergeBlank_def)
  from a b c d show ?thesis by blast
qed

text \<open>The computation on the example graph, and the two operators on defined values.\<close>

theorem merge_never_sees_Undefined_witness:
  "computeFixedPoint None cfg_ex \<noteq> Some (Inl AssertUndefinedArg)
   \<and> merge Defined PotentiallyDefined = Inr PotentiallyDefined
   \<and> merge Defined Defined = Inr Defined
   \<and> mergeBlank Defined = Inr PotentiallyDefined"
  using merge_never_sees_Undefined [of None cfg_ex Defined PotentiallyDefined]
    merge_never_sees_Undefined [of None cfg_ex Defined Defined]
  by simp

end
